theory Spec2Isabelle
  imports Complex_Main "HOL-Library.List_Lexorder" "HOL-Library.Log_Nat" "HOL-Library.Sublist"
begin

section \<open>Python values and exceptions\<close>

text \<open>
  The two modules are Python. An exception is a value of \<open>py_error\<close>, and a function
  that can raise returns \<open>py_error + 'a\<close> with \<open>Inl\<close> for the raise. Python integers
  are \<open>int\<close>. A \<open>str\<close> of a file name or a path is the list of its code points,
  \<open>pystr\<close>, and \<open>ustr\<close> gives the \<open>str\<close> of an ASCII literal. Two computations of
  the Python library rest on tables that are no part of the repository and are
  parameters of the functions that use them: the digit property of a character (the
  Unicode database behind \<open>str.isdigit\<close>) and the MD5 digest of \<open>hashlib\<close>.
\<close>

datatype py_error =
    ZeroDivisionError
  | IndexError
  | ValueError
  | TypeError
  | UnboundLocalError
  | AttributeError
  | OSError

type_synonym pystr = "nat list"

definition ustr :: "string \<Rightarrow> pystr" where
  "ustr s = map of_char s"

text \<open>
  Subscripting a Python list by an integer. From \<open>0\<close> up to the length the position
  is taken as it is, from minus the length up to \<open>-1\<close> it is counted back from the
  end, and every other integer raises IndexError.
\<close>

definition list_getitem :: "'a list \<Rightarrow> int \<Rightarrow> py_error + 'a" where
  "list_getitem xs i =
     (if 0 \<le> i \<and> i < int (length xs) then Inr (xs ! nat i)
      else if - int (length xs) \<le> i \<and> i < 0 then Inr (xs ! nat (int (length xs) + i))
      else Inl IndexError)"

text \<open>
  \<open>range(start, stop, step)\<close> as the list it enumerates; a zero step raises ValueError.
  The number of elements is the one CPython computes for a range object.
\<close>

definition py_range :: "int \<Rightarrow> int \<Rightarrow> int \<Rightarrow> py_error + int list" where
  "py_range start stop step =
     (if step = 0 then Inl ValueError
      else if 0 < step then
        Inr (map (\<lambda>k. start + int k * step)
               [0..<(if start < stop then nat (1 + (stop - 1 - start) div step) else 0)])
      else
        Inr (map (\<lambda>k. start + int k * step)
               [0..<(if stop < start then nat (1 + (start - 1 - stop) div (- step)) else 0)]))"

text \<open>
  A Python float is a binary64 number, kept here as the rational it denotes.
  \<open>to_double\<close> rounds a rational to the nearest number with a significand of 53
  bits, ties to the even significand, as the conversion of the literal \<open>0.2\<close> and the
  true division of two integers do. \<open>binade x\<close> is the exponent \<open>e\<close> with
  \<open>2^e \<le> x < 2^(e+1)\<close>. The limits of the exponent of binary64 are left out: the
  numbers rounded here are \<open>0.2\<close> and quotients of two counts of files.
\<close>

definition round_half_even :: "rat \<Rightarrow> int" where
  "round_half_even x =
     (let f = \<lfloor>x\<rfloor>; d = x - of_int f
      in if d < 1 / 2 then f else if 1 / 2 < d then f + 1 else if even f then f else f + 1)"

definition binade :: "rat \<Rightarrow> int" where
  "binade x =
     (case quotient_of x of
        (a, b) \<Rightarrow> let d = bitlen a - bitlen b in if 2 powi d \<le> x then d else d - 1)"

definition to_double :: "rat \<Rightarrow> rat" where
  "to_double x =
     (if x = 0 then 0
      else let e = binade \<bar>x\<bar> - 52
           in sgn x * of_int (round_half_even (\<bar>x\<bar> / 2 powi e)) * 2 powi e)"

text \<open>
  \<open>a / b\<close> on two Python integers: true division, the correctly rounded double of the
  quotient; a zero divisor raises ZeroDivisionError.
\<close>

definition py_truediv :: "int \<Rightarrow> int \<Rightarrow> py_error + rat" where
  "py_truediv a b =
     (if b = 0 then Inl ZeroDivisionError else Inr (to_double (of_int a / of_int b)))"

text \<open>
  \<open>str.isdigit()\<close>: at least one character, and every character a digit. Which
  characters are digits is the Unicode database's (the decimal digits of every script
  and further digit characters such as the superscripts): the parameter \<open>digit\<close>, a
  property of code points.
\<close>

definition isdigit :: "(nat \<Rightarrow> bool) \<Rightarrow> pystr \<Rightarrow> bool" where
  "isdigit digit s = (s \<noteq> [] \<and> list_all digit s)"

definition startswith :: "pystr \<Rightarrow> pystr \<Rightarrow> bool" where
  "startswith s p = (take (length p) s = p)"

text \<open>\<open>s.rfind(c)\<close>: the index of the last occurrence of \<open>c\<close>, or \<open>-1\<close>.\<close>

definition rfind :: "pystr \<Rightarrow> nat \<Rightarrow> int" where
  "rfind s c =
     (if c \<in> set s
      then int (length s) - 1 - int (length (takeWhile (\<lambda>x. x \<noteq> c) (rev s)))
      else - 1)"

text \<open>
  \<open>PurePath.suffix\<close> and \<open>PurePath.stem\<close> of a file name, as pathlib defines them: the
  suffix starts at the last dot (code point 46), unless that dot is the first or the
  last character.
\<close>

definition suffix_of :: "pystr \<Rightarrow> pystr" where
  "suffix_of nm =
     (let i = rfind nm 46
      in if 0 < i \<and> i < int (length nm) - 1 then drop (nat i) nm else [])"

definition stem :: "pystr \<Rightarrow> pystr" where
  "stem nm =
     (let i = rfind nm 46
      in if 0 < i \<and> i < int (length nm) - 1 then take (nat i) nm else nm)"

text \<open>\<open>s[-3:]\<close>: the last three characters, or all of \<open>s\<close> when it is shorter.\<close>

definition last3 :: "pystr \<Rightarrow> pystr" where
  "last3 s = drop (length s - 3) s"

section \<open>Arrays and the file sequence\<close>

text \<open>
  A numpy array is its shape and its elements in row-major order; the type of the
  elements is not modelled. \<open>numpy.stack\<close> puts a new first axis over arrays of one
  common shape; it raises ValueError on an empty list and on arrays of different
  shapes.
\<close>

datatype ndarray = NDArray (shape: "nat list") (elems: "int list")

definition numpy_stack :: "ndarray list \<Rightarrow> py_error + ndarray" where
  "numpy_stack arrays =
     (case arrays of
        [] \<Rightarrow> Inl ValueError
      | a # rest \<Rightarrow>
          if list_all (\<lambda>b. shape b = shape a) rest
          then Inr (NDArray (length arrays # shape a) (concat (map elems arrays)))
          else Inl ValueError)"

text \<open>\<open>arr[lo:hi]\<close> along axis 0, for \<open>lo \<le> hi\<close> within the array.\<close>

definition axis0_slice :: "ndarray \<Rightarrow> nat \<Rightarrow> nat \<Rightarrow> ndarray" where
  "axis0_slice arr lo hi =
     (let inner = prod_list (tl (shape arr))
      in NDArray ((hi - lo) # tl (shape arr))
           (take ((hi - lo) * inner) (drop (lo * inner) (elems arr))))"

text \<open>
  The assignment \<open>buffer[k] = im\<close> of numpy, where \<open>buffer[k]\<close> has the shape
  \<open>target\<close>: \<open>im\<close> is broadcast to that shape. Leading axes of extent 1 that \<open>im\<close> has
  beyond the target are dropped; then the shapes are aligned at the last axis, an
  axis that \<open>im\<close> lacks or has with extent 1 is repeated, and any other difference of
  extents raises ValueError. The result is the row-major contents assigned.
\<close>

fun strip_unit_axes :: "nat \<Rightarrow> nat list \<Rightarrow> nat list" where
  "strip_unit_axes n [] = []"
| "strip_unit_axes n (d # ds) =
     (if n < length (d # ds) \<and> d = 1 then strip_unit_axes n ds else d # ds)"

fun broadcast_elems :: "nat list \<Rightarrow> nat list \<Rightarrow> int list \<Rightarrow> int list option" where
  "broadcast_elems [] [] es = Some es"
| "broadcast_elems (t # ts) (s # ss) es =
     (if s = t
      then map_option concat
             (those (map (\<lambda>k. broadcast_elems ts ss (take (prod_list ss) (drop (k * prod_list ss) es)))
                      [0..<t]))
      else if s = 1 then map_option (\<lambda>row. concat (replicate t row)) (broadcast_elems ts ss es)
      else None)"
| "broadcast_elems [] (s # ss) es = None"
| "broadcast_elems (t # ts) [] es = None"

definition assign_frame :: "nat list \<Rightarrow> ndarray \<Rightarrow> py_error + int list" where
  "assign_frame target im =
     (let s = strip_unit_axes (length target) (shape im)
      in if length target < length s then Inl ValueError
         else (case broadcast_elems target (replicate (length target - length s) 1 @ s) (elems im) of
                 None \<Rightarrow> Inl ValueError
               | Some row \<Rightarrow> Inr row))"

text \<open>
  \<open>tifffile.TiffSequence\<close> holds the list of file paths it was given, in that order, and
  refuses an empty list. Decoding one file is the environment's: \<open>imread\<close> maps a path
  to the decoded frame or to the error the decoder raises.
\<close>

record tiff_sequence =
  files :: "pystr list"

type_synonym imread = "pystr \<Rightarrow> py_error + ndarray"

definition TiffSequence :: "pystr list \<Rightarrow> py_error + tiff_sequence" where
  "TiffSequence fs = (if fs = [] then Inl ValueError else Inr \<lparr>files = fs\<rparr>)"

text \<open>
  The loop of \<open>asarray()\<close> over the files: each file is decoded and assigned to its
  place in the buffer; the first exception ends the loop.
\<close>

fun fill_frames :: "imread \<Rightarrow> nat list \<Rightarrow> pystr list \<Rightarrow> py_error + int list list" where
  "fill_frames rd target [] = Inr []"
| "fill_frames rd target (f # fs) =
     (case rd f of
        Inl e \<Rightarrow> Inl e
      | Inr im \<Rightarrow>
          (case assign_frame target im of
             Inl e \<Rightarrow> Inl e
           | Inr row \<Rightarrow>
               (case fill_frames rd target fs of
                  Inl e \<Rightarrow> Inl e
                | Inr rows \<Rightarrow> Inr (row # rows))))"

text \<open>
  \<open>seq.asarray(index=i)\<close> decodes the file at position \<open>i\<close> of \<open>seq.files\<close>.
  \<open>seq.asarray()\<close> decodes the first file, makes a buffer of the shape
  \<open>(len(files), *im.shape)\<close> for its frame \<open>im\<close>, views it as
  \<open>reshape(-1, *im.shape)\<close> (which numpy refuses with ValueError for a frame without
  elements), and assigns the frame of every file to its place.
\<close>

definition asarray :: "imread \<Rightarrow> tiff_sequence \<Rightarrow> int option \<Rightarrow> py_error + ndarray" where
  "asarray rd seq index =
     (case index of
        Some i \<Rightarrow> (case list_getitem (files seq) i of Inl e \<Rightarrow> Inl e | Inr f \<Rightarrow> rd f)
      | None \<Rightarrow>
          (case list_getitem (files seq) 0 of
             Inl e \<Rightarrow> Inl e
           | Inr f \<Rightarrow>
               (case rd f of
                  Inl e \<Rightarrow> Inl e
                | Inr im \<Rightarrow>
                    if prod_list (shape im) = 0 then Inl ValueError
                    else (case fill_frames rd (shape im) (files seq) of
                            Inl e \<Rightarrow> Inl e
                          | Inr rows \<Rightarrow>
                              Inr (NDArray (length (files seq) # shape im) (concat rows))))))"

text \<open>
  \<open>_safe_asarray\<close>: on a TypeError the call is repeated with the keyword of the older
  tifffile versions, which names the same decode.
\<close>

definition safe_asarray :: "imread \<Rightarrow> tiff_sequence \<Rightarrow> int option \<Rightarrow> py_error + ndarray" where
  "safe_asarray rd seq index =
     (case asarray rd seq index of
        Inl TypeError \<Rightarrow> asarray rd seq index
      | r \<Rightarrow> r)"

section \<open>The object cache\<close>

text \<open>
  A cache key is a Python tuple of strings and integers.
\<close>

datatype key_part = KStr string | KInt int

type_synonym cache_key = "key_part list"

text \<open>
  Modelled from the spec: the state of the object cache. The module
  \<open>tiled/server/object_cache.py\<close>, from which the reader imports \<open>with_object_cache\<close>,
  is absent; the specification (section 4.3) describes a key-addressed store with a
  capacity and eviction of the least recently used entry. The entries are kept most
  recently used first, and \<open>stored\<close> is the history of what was stored, each key with
  the value stored under it, oldest first.
\<close>

record object_cache =
  capacity :: nat
  entries :: "(cache_key \<times> ndarray) list"
  stored :: "(cache_key \<times> ndarray) list"

definition empty_cache :: "nat \<Rightarrow> object_cache" where
  "empty_cache cap = \<lparr>capacity = cap, entries = [], stored = []\<rparr>"

text \<open>
  Modelled from the spec: \<open>with_object_cache\<close>, absent with its module. By section 4.3
  of the specification: on a hit the stored value is returned without running the
  computation; on a miss the computation runs, its result is stored under the key and
  returned; a failed computation stores nothing and its failure goes to the caller;
  when the entries exceed the capacity the least recently used one is evicted. The
  factory of the source is a pure function of the reader, so its result is what is
  passed.
\<close>

definition with_object_cache ::
  "cache_key \<Rightarrow> (py_error + ndarray) \<Rightarrow> object_cache \<Rightarrow> (py_error + ndarray) \<times> object_cache" where
  "with_object_cache key compute c =
     (case map_of (entries c) key of
        Some v \<Rightarrow> (Inr v, c\<lparr>entries := (key, v) # filter (\<lambda>kv. fst kv \<noteq> key) (entries c)\<rparr>)
      | None \<Rightarrow>
          (case compute of
             Inl e \<Rightarrow> (Inl e, c)
           | Inr v \<Rightarrow>
               (Inr v, c\<lparr>entries := take (capacity c) ((key, v) # entries c),
                         stored := stored c @ [(key, v)]\<rparr>)))"

section \<open>\<open>tiled/readers/tiff_sequence.py\<close>\<close>

record tiff_sequence_reader =
  seq :: tiff_sequence
  metadata :: "(string \<times> string) list"
  cache_key :: cache_key

text \<open>
  \<open>TiffSequenceReader.__init__\<close>. The third component of the key is
  \<open>hashlib.md5(str(self._seq.files).encode()).hexdigest()\<close>: the parameter
  \<open>fingerprint\<close> is that digest as a function of the list of files.
\<close>

definition TiffSequenceReader :: "(pystr list \<Rightarrow> string) \<Rightarrow> tiff_sequence \<Rightarrow> tiff_sequence_reader" where
  "TiffSequenceReader fingerprint sq =
     \<lparr>seq = sq,
      metadata = [],
      cache_key = [KStr ''tiled.readers.tiff_sequence'',
                   KStr ''TiffSequenceReader'',
                   KStr (fingerprint (files sq))]\<rparr>"

text \<open>
  A directory as \<open>subdirectory_handler\<close> sees it: its path and what \<open>iterdir()\<close> yields.
  \<open>joinpath\<close> is the path of a child as pathlib writes it: after the path \<open>.\<close> the
  name alone, after a path that ends with a slash (code point 47; the root) the name
  appended, and otherwise the two with a slash between.
\<close>

record dir_entry =
  is_file :: bool
  name :: pystr

record directory =
  location :: pystr
  children :: "dir_entry list"

definition joinpath :: "pystr \<Rightarrow> pystr \<Rightarrow> pystr" where
  "joinpath loc nm =
     (if loc = [46] then nm
      else if loc \<noteq> [] \<and> last loc = 47 then loc @ nm
      else loc @ [47] @ nm)"

text \<open>The two thresholds of \<open>subdirectory_handler\<close>; \<open>0.2\<close> is a float literal.\<close>

definition RELATIVE_THRESHOLD :: rat where
  "RELATIVE_THRESHOLD = to_double (2 / 10)"

definition ABSOLUTE_THRESHOLD :: int where
  "ABSOLUTE_THRESHOLD = 10"

text \<open>The loop of \<open>subdirectory_handler\<close>, with \<open>filepaths\<close> and \<open>outliers\<close> as its state.\<close>

fun sniff_loop ::
  "(nat \<Rightarrow> bool) \<Rightarrow> pystr \<Rightarrow> dir_entry list \<Rightarrow> pystr list \<Rightarrow> int \<Rightarrow> pystr list \<times> int" where
  "sniff_loop digit loc [] filepaths outliers = (filepaths, outliers)"
| "sniff_loop digit loc (e # es) filepaths outliers =
     (if \<not> is_file e then sniff_loop digit loc es filepaths outliers
      else if startswith (name e) (ustr ''.'') then sniff_loop digit loc es filepaths outliers
      else if (suffix_of (name e) = ustr ''.tif'' \<or> suffix_of (name e) = ustr ''.tiff'')
              \<and> isdigit digit (last3 (stem (name e)))
        then sniff_loop digit loc es (filepaths @ [joinpath loc (name e)]) outliers
      else sniff_loop digit loc es filepaths (outliers + 1))"

text \<open>
  \<open>subdirectory_handler\<close>. The paths are kept as strings; for the files of one
  directory the order of \<open>sorted\<close> on the paths is the order of the strings, which
  Python compares code point by code point.
\<close>

definition subdirectory_handler ::
  "(nat \<Rightarrow> bool) \<Rightarrow> (pystr list \<Rightarrow> string) \<Rightarrow> directory
     \<Rightarrow> py_error + tiff_sequence_reader option" where
  "subdirectory_handler digit fingerprint path =
     (case sniff_loop digit (location path) (children path) [] 0 of
        (filepaths, outliers) \<Rightarrow>
          (case py_truediv outliers (outliers + int (length filepaths)) of
             Inl e \<Rightarrow> Inl e
           | Inr fraction \<Rightarrow>
               if outliers \<le> ABSOLUTE_THRESHOLD \<and> fraction \<le> RELATIVE_THRESHOLD
               then (case TiffSequence (sort filepaths) of
                       Inl e \<Rightarrow> Inl e
                     | Inr sq \<Rightarrow> Inr (Some (TiffSequenceReader fingerprint sq)))
               else Inr None))"

text \<open>
  What a caller can pass as the \<open>slice\<close> argument of \<open>read\<close>: \<open>None\<close>, an \<open>int\<close>, a
  \<open>slice\<close> object (each field an integer or \<open>None\<close>), a tuple, and objects of other
  types, of which a list, \<open>Ellipsis\<close> and a numpy integer (\<open>numpy.int64\<close> is not an
  instance of \<open>int\<close>) stand here. What \<open>read\<close> returns is an array or \<open>None\<close>.
\<close>

datatype pyobj =
    PNone
  | PInt int
  | PSlice "int option" "int option" "int option"
  | PTuple "pyobj list"
  | PList "pyobj list"
  | PEllipsis
  | PNumpyInt int

datatype pyval = RNone | RArray ndarray

text \<open>
  \<open>arr[index]\<close> on a numpy array is numpy's; it is a parameter of the reader, given the
  array and the components of the index tuple.
\<close>

type_synonym getitem = "ndarray \<Rightarrow> pyobj list \<Rightarrow> py_error + ndarray"

text \<open>
  The list comprehension of \<open>read\<close>: one cached decode per index, in the order of the
  indices; the first exception ends it.
\<close>

fun cached_frames ::
  "imread \<Rightarrow> tiff_sequence_reader \<Rightarrow> int list \<Rightarrow> object_cache
     \<Rightarrow> (py_error + ndarray list) \<times> object_cache" where
  "cached_frames rd r [] c = (Inr [], c)"
| "cached_frames rd r (i # rest) c =
     (case with_object_cache (cache_key r @ [KInt i]) (safe_asarray rd (seq r) (Some i)) c of
        (Inl e, c1) \<Rightarrow> (Inl e, c1)
      | (Inr a, c1) \<Rightarrow>
          (case cached_frames rd r rest c1 of
             (Inl e, c2) \<Rightarrow> (Inl e, c2)
           | (Inr as, c2) \<Rightarrow> (Inr (a # as), c2)))"

text \<open>
  The axis-0 range of \<open>read\<close> (the same statements stand in its tuple branch and in its
  slice branch): the defaults of \<open>start\<close> and \<open>step\<close>, then \<open>numpy.stack\<close> over the
  cached decodes. \<open>range\<close> refuses a \<open>stop\<close> of \<open>None\<close> with TypeError.
\<close>

definition stack_range ::
  "imread \<Rightarrow> tiff_sequence_reader \<Rightarrow> int option \<Rightarrow> int option \<Rightarrow> int option \<Rightarrow> object_cache
     \<Rightarrow> (py_error + ndarray) \<times> object_cache" where
  "stack_range rd r start stop step c =
     (let slice_start = (case start of None \<Rightarrow> 0 | Some s \<Rightarrow> s);
          slice_step = (case step of None \<Rightarrow> 1 | Some s \<Rightarrow> s)
      in case stop of
           None \<Rightarrow> (Inl TypeError, c)
         | Some slice_stop \<Rightarrow>
             (case py_range slice_start slice_stop slice_step of
                Inl e \<Rightarrow> (Inl e, c)
              | Inr indices \<Rightarrow>
                  (case cached_frames rd r indices c of
                     (Inl e, c1) \<Rightarrow> (Inl e, c1)
                   | (Inr as, c1) \<Rightarrow> (numpy_stack as, c1))))"

definition as_array :: "(py_error + ndarray) \<times> object_cache \<Rightarrow> (py_error + pyval) \<times> object_cache" where
  "as_array rc = (case rc of (Inl e, c) \<Rightarrow> (Inl e, c) | (Inr a, c) \<Rightarrow> (Inr (RArray a), c))"

text \<open>\<open>TiffSequenceReader.read\<close>, branch by branch in the order of the source.\<close>

fun read ::
  "imread \<Rightarrow> getitem \<Rightarrow> tiff_sequence_reader \<Rightarrow> pyobj \<Rightarrow> object_cache
     \<Rightarrow> (py_error + pyval) \<times> object_cache" where
  "read rd gi r PNone c =
     as_array (with_object_cache (cache_key r) (safe_asarray rd (seq r) None) c)"
| "read rd gi r (PInt i) c =
     as_array (with_object_cache (cache_key r @ [KInt i]) (safe_asarray rd (seq r) (Some i)) c)"
| "read rd gi r (PTuple []) c = (Inl ValueError, c)"
| "read rd gi r (PTuple (PInt i # the_rest)) c =
     (case with_object_cache (cache_key r @ [KInt i]) (safe_asarray rd (seq r) (Some i)) c of
        (Inl e, c1) \<Rightarrow> (Inl e, c1)
      | (Inr arr, c1) \<Rightarrow> as_array (gi arr the_rest, c1))"
| "read rd gi r (PTuple (PSlice start stop step # the_rest)) c =
     (case stack_range rd r start stop step c of
        (Inl e, c1) \<Rightarrow> (Inl e, c1)
      | (Inr arr, c1) \<Rightarrow> as_array (gi arr the_rest, c1))"
| "read rd gi r (PTuple (image_axis # the_rest)) c = (Inl UnboundLocalError, c)"
| "read rd gi r (PSlice start stop step) c = as_array (stack_range rd r start stop step c)"
| "read rd gi r other c = (Inr RNone, c)"

text \<open>
  \<open>TiffSequenceReader.read_block\<close>. A block is a tuple of integers; \<open>block[1:]\<close> is
  compared first, so \<open>block[0]\<close> is read from a tuple of three components. The second
  argument (\<open>slice\<close> in the source) is \<open>sub_selector\<close> here.
\<close>

definition read_block ::
  "imread \<Rightarrow> getitem \<Rightarrow> tiff_sequence_reader \<Rightarrow> int list \<Rightarrow> pyobj option \<Rightarrow> object_cache
     \<Rightarrow> (py_error + pyval) \<times> object_cache" where
  "read_block rd gi r block sub_selector c =
     (if drop 1 block \<noteq> [0, 0] then (Inl IndexError, c)
      else
        (case read rd gi r (PSlice (Some (hd block)) (Some (hd block + 1)) None) c of
           (Inl e, c1) \<Rightarrow> (Inl e, c1)
         | (Inr arr, c1) \<Rightarrow>
             (case sub_selector of
                None \<Rightarrow> (Inr arr, c1)
              | Some sel \<Rightarrow>
                  (case arr of
                     RNone \<Rightarrow> (Inl TypeError, c1)
                   | RArray a \<Rightarrow>
                       as_array (gi a (case sel of PTuple xs \<Rightarrow> xs | x \<Rightarrow> [x]), c1)))))"

text \<open>
  \<open>ArrayMacroStructure\<close> and \<open>TiffSequenceReader.macrostructure\<close>. \<open>shape[1]\<close> and
  \<open>shape[2]\<close> raise IndexError when the frame has fewer than two axes.
\<close>

record array_macrostructure =
  ms_shape :: "nat list"
  ms_chunks :: "nat list list"

definition macrostructure ::
  "imread \<Rightarrow> getitem \<Rightarrow> tiff_sequence_reader \<Rightarrow> object_cache
     \<Rightarrow> (py_error + array_macrostructure) \<times> object_cache" where
  "macrostructure rd gi r c =
     (case read rd gi r (PInt 0) c of
        (Inl e, c1) \<Rightarrow> (Inl e, c1)
      | (Inr RNone, c1) \<Rightarrow> (Inl AttributeError, c1)
      | (Inr (RArray frame), c1) \<Rightarrow>
          (let shp = length (files (seq r)) # shape frame
           in if length shp < 3 then (Inl IndexError, c1)
              else (Inr \<lparr>ms_shape = shp,
                         ms_chunks = [replicate (shp ! 0) 1, [shp ! 1], [shp ! 2]]\<rparr>, c1)))"

section \<open>Reference notions for the reader\<close>

text \<open>
  The decodes of a list of indices without the cache, in the order of the list, with
  the first error ending them: what the cached comprehension of \<open>read\<close> is compared
  with.
\<close>

fun decode_indices :: "imread \<Rightarrow> tiff_sequence \<Rightarrow> int list \<Rightarrow> py_error + ndarray list" where
  "decode_indices rd sq [] = Inr []"
| "decode_indices rd sq (i # rest) =
     (case asarray rd sq (Some i) of
        Inl e \<Rightarrow> Inl e
      | Inr a \<Rightarrow> (case decode_indices rd sq rest of Inl e \<Rightarrow> Inl e | Inr as \<Rightarrow> Inr (a # as)))"

text \<open>
  \<open>numpy.stack\<close> over the decodes of the files of \<open>range(start, stop, step)\<close>, with
  the defaults of \<open>read\<close> and without the cache.
\<close>

definition stacked_decodes ::
  "imread \<Rightarrow> tiff_sequence \<Rightarrow> int option \<Rightarrow> int option \<Rightarrow> int option \<Rightarrow> py_error + ndarray" where
  "stacked_decodes rd sq start stop step =
     (case stop of
        None \<Rightarrow> Inl TypeError
      | Some slice_stop \<Rightarrow>
          (case py_range (case start of None \<Rightarrow> 0 | Some s \<Rightarrow> s) slice_stop
                  (case step of None \<Rightarrow> 1 | Some s \<Rightarrow> s) of
             Inl e \<Rightarrow> Inl e
           | Inr indices \<Rightarrow>
               (case decode_indices rd sq indices of
                  Inl e \<Rightarrow> Inl e
                | Inr as \<Rightarrow> numpy_stack as)))"

text \<open>
  The sources are taken as immutable once opened (specification, section 3), so an
  entry found under one of a reader's keys is what the decode behind that key gives:
  the whole sequence under the reader's own key, the file at index \<open>i\<close> under the key
  extended by \<open>i\<close>. A cache is consistent with a reader when all its entries are so.
  The empty cache is, and the reader keeps it so.
\<close>

definition key_index :: "cache_key \<Rightarrow> cache_key \<Rightarrow> int option" where
  "key_index base k =
     (if take (length base) k = base
      then (case drop (length base) k of [KInt i] \<Rightarrow> Some i | _ \<Rightarrow> None)
      else None)"

definition entry_ok :: "imread \<Rightarrow> tiff_sequence_reader \<Rightarrow> cache_key \<times> ndarray \<Rightarrow> bool" where
  "entry_ok rd r kv =
     ((if fst kv = cache_key r then asarray rd (seq r) None = Inr (snd kv) else True)
      \<and> (case key_index (cache_key r) (fst kv) of
            None \<Rightarrow> True
          | Some i \<Rightarrow> asarray rd (seq r) (Some i) = Inr (snd kv)))"

definition cache_ok :: "imread \<Rightarrow> tiff_sequence_reader \<Rightarrow> object_cache \<Rightarrow> bool" where
  "cache_ok rd r c = list_all (entry_ok rd r) (entries c)"

text \<open>
  The keys under which a cache holds an entry, and the key of a reader for the file
  at an index.
\<close>

definition cached_keys :: "object_cache \<Rightarrow> cache_key set" where
  "cached_keys c = fst ` set (entries c)"

definition file_key :: "tiff_sequence_reader \<Rightarrow> int \<Rightarrow> cache_key" where
  "file_key r i = cache_key r @ [KInt i]"

text \<open>
  A sequence whose every file decodes to a well-formed frame of the shape \<open>shp\<close>.
\<close>

definition frame_ok :: "nat list \<Rightarrow> py_error + ndarray \<Rightarrow> bool" where
  "frame_ok shp res =
     (case res of Inl e \<Rightarrow> False | Inr a \<Rightarrow> shape a = shp \<and> length (elems a) = prod_list shp)"

definition uniform_frames :: "imread \<Rightarrow> tiff_sequence \<Rightarrow> nat list \<Rightarrow> bool" where
  "uniform_frames rd sq shp = list_all (\<lambda>f. frame_ok shp (rd f)) (files sq)"

text \<open>
  A sequence of three files of one row and two columns each, for the examples; its
  sub-indexing accepts the empty index tuple only. The reader is the one that
  \<open>TiffSequenceReader\<close> builds over the three paths; its fingerprint is the digest that
  \<open>hashlib\<close> gives for their list.
\<close>

definition demo_files :: "pystr list" where
  "demo_files =
     [ustr ''/data/scan/img001.tif'', ustr ''/data/scan/img002.tif'', ustr ''/data/scan/img003.tif'']"

definition demo_imread :: imread where
  "demo_imread f =
     (if f = ustr ''/data/scan/img001.tif'' then Inr (NDArray [1, 2] [10, 11])
      else if f = ustr ''/data/scan/img002.tif'' then Inr (NDArray [1, 2] [20, 21])
      else if f = ustr ''/data/scan/img003.tif'' then Inr (NDArray [1, 2] [30, 31])
      else Inl OSError)"

definition demo_getitem :: getitem where
  "demo_getitem arr index = (if index = [] then Inr arr else Inl IndexError)"

definition demo_reader :: tiff_sequence_reader where
  "demo_reader =
     \<lparr>seq = \<lparr>files = demo_files\<rparr>,
      metadata = [],
      cache_key = [KStr ''tiled.readers.tiff_sequence'',
                   KStr ''TiffSequenceReader'',
                   KStr ''10dc1a8ab18626e7c8aed1b85666d7d6'']\<rparr>"

definition demo_structure :: array_macrostructure where
  "demo_structure = \<lparr>ms_shape = [3, 1, 2], ms_chunks = [[1, 1, 1], [1], [2]]\<rparr>"

text \<open>
  A sequence of two colour files, each a frame of two rows, two columns and three
  samples.
\<close>

definition rgb_files :: "pystr list" where
  "rgb_files = [ustr ''/data/rgb/img001.tif'', ustr ''/data/rgb/img002.tif'']"

definition rgb_imread :: imread where
  "rgb_imread f =
     (if f = ustr ''/data/rgb/img001.tif''
        then Inr (NDArray [2, 2, 3] [1, 2, 3, 4, 5, 6, 7, 8, 9, 10, 11, 12])
      else if f = ustr ''/data/rgb/img002.tif''
        then Inr (NDArray [2, 2, 3] [13, 14, 15, 16, 17, 18, 19, 20, 21, 22, 23, 24])
      else Inl OSError)"

definition rgb_reader :: tiff_sequence_reader where
  "rgb_reader =
     \<lparr>seq = \<lparr>files = rgb_files\<rparr>,
      metadata = [],
      cache_key = [KStr ''tiled.readers.tiff_sequence'',
                   KStr ''TiffSequenceReader'',
                   KStr ''2831562b3f9f7302615cfb9948757224'']\<rparr>"

definition rgb_structure :: array_macrostructure where
  "rgb_structure = \<lparr>ms_shape = [2, 2, 2, 3], ms_chunks = [[1, 1], [2], [2]]\<rparr>"

text \<open>
  A sequence of two files whose frames differ: two rows and two columns in the
  first file, one row and two columns in the second.
\<close>

definition mixed_files :: "pystr list" where
  "mixed_files = [ustr ''/data/mixed/img001.tif'', ustr ''/data/mixed/img002.tif'']"

definition mixed_imread :: imread where
  "mixed_imread f =
     (if f = ustr ''/data/mixed/img001.tif'' then Inr (NDArray [2, 2] [1, 2, 3, 4])
      else if f = ustr ''/data/mixed/img002.tif'' then Inr (NDArray [1, 2] [5, 6])
      else Inl OSError)"

definition mixed_reader :: tiff_sequence_reader where
  "mixed_reader =
     \<lparr>seq = \<lparr>files = mixed_files\<rparr>,
      metadata = [],
      cache_key = [KStr ''tiled.readers.tiff_sequence'',
                   KStr ''TiffSequenceReader'',
                   KStr ''53ddbdf13b69602f3aced784444988fe'']\<rparr>"

definition mixed_structure :: array_macrostructure where
  "mixed_structure = \<lparr>ms_shape = [2, 2, 2], ms_chunks = [[1, 1], [2], [2]]\<rparr>"

section \<open>The detector's rule in the words of the specification\<close>

text \<open>
  The specification counts, among the direct children that are regular files and not
  hidden, the sequence members (\<open>matches\<close>) and the others (\<open>outliers\<close>). These
  notions are written here from the specification's words, on the name alone and
  without the functions of the source: a name is hidden when its first character is a
  dot; it has the extension \<open>ext\<close> with digits before it when it ends with \<open>ext\<close>,
  something stands before \<open>ext\<close>, and the final three characters of what stands
  before (all of them when they are fewer) are digits. What a digit is, is Python's
  notion, the parameter \<open>digit\<close>. The rule \<open>accepts\<close> is in exact arithmetic.
\<close>

definition hidden :: "pystr \<Rightarrow> bool" where
  "hidden nm = (case nm of [] \<Rightarrow> False | c # rest \<Rightarrow> c = 46)"

definition eligible :: "dir_entry \<Rightarrow> bool" where
  "eligible e = (is_file e \<and> \<not> hidden (name e))"

definition digits_before :: "(nat \<Rightarrow> bool) \<Rightarrow> pystr \<Rightarrow> pystr \<Rightarrow> bool" where
  "digits_before digit ext nm =
     (length ext < length nm
      \<and> drop (length nm - length ext) nm = ext
      \<and> list_all digit (take 3 (rev (take (length nm - length ext) nm))))"

definition sequence_member :: "(nat \<Rightarrow> bool) \<Rightarrow> dir_entry \<Rightarrow> bool" where
  "sequence_member digit e =
     (digits_before digit (ustr ''.tif'') (name e) \<or> digits_before digit (ustr ''.tiff'') (name e))"

definition matches :: "(nat \<Rightarrow> bool) \<Rightarrow> directory \<Rightarrow> dir_entry list" where
  "matches digit d = filter (sequence_member digit) (filter eligible (children d))"

definition outliers :: "(nat \<Rightarrow> bool) \<Rightarrow> directory \<Rightarrow> dir_entry list" where
  "outliers digit d = filter (\<lambda>e. \<not> sequence_member digit e) (filter eligible (children d))"

definition accepts :: "(nat \<Rightarrow> bool) \<Rightarrow> directory \<Rightarrow> bool" where
  "accepts digit d =
     (length (outliers digit d) \<le> 10
      \<and> (length (outliers digit d) = 0
         \<or> (of_nat (length (outliers digit d))
              / of_nat (length (outliers digit d) + length (matches digit d)) :: rat)
             \<le> 2 / 10))"

text \<open>
  Two directories of the specification's examples: 100 files \<open>img001.tif\<close> to
  \<open>img100.tif\<close> with 5 unrelated files \<open>notes001.txt\<close> to \<open>notes005.txt\<close>, and 50 such
  image files with 20 files \<open>dark001b.tif\<close> to \<open>dark020b.tif\<close>, which have the
  extension but a letter among the final three characters. Their names are ASCII, and
  \<open>ascii_digit\<close> is the digit property on ASCII: the characters \<open>0\<close> to \<open>9\<close>.
\<close>

definition ascii_digit :: "nat \<Rightarrow> bool" where
  "ascii_digit c = (48 \<le> c \<and> c \<le> 57)"

definition digits3 :: "nat \<Rightarrow> pystr" where
  "digits3 n = [48 + n div 100 mod 10, 48 + n div 10 mod 10, 48 + n mod 10]"

definition tiff_entry :: "nat \<Rightarrow> dir_entry" where
  "tiff_entry i = \<lparr>is_file = True, name = ustr ''img'' @ digits3 i @ ustr ''.tif''\<rparr>"

definition other_entry :: "nat \<Rightarrow> dir_entry" where
  "other_entry i = \<lparr>is_file = True, name = ustr ''notes'' @ digits3 i @ ustr ''.txt''\<rparr>"

definition dark_entry :: "nat \<Rightarrow> dir_entry" where
  "dark_entry i = \<lparr>is_file = True, name = ustr ''dark'' @ digits3 i @ ustr ''b.tif''\<rparr>"

definition tiff_files :: "nat \<Rightarrow> dir_entry list" where
  "tiff_files n = map tiff_entry [1..<Suc n]"

definition other_files :: "nat \<Rightarrow> dir_entry list" where
  "other_files n = map other_entry [1..<Suc n]"

definition dark_files :: "nat \<Rightarrow> dir_entry list" where
  "dark_files n = map dark_entry [1..<Suc n]"

definition dir_100_5 :: directory where
  "dir_100_5 = \<lparr>location = ustr ''/data/scan'', children = tiff_files 100 @ other_files 5\<rparr>"

definition dir_50_20 :: directory where
  "dir_50_20 = \<lparr>location = ustr ''/data/mixed'', children = dark_files 20 @ tiff_files 50\<rparr>"

section \<open>\<open>catalog_server/server/router.py\<close>: the block parameter\<close>

text \<open>
  The value of a query parameter is a \<open>string\<close>: a \<open>str\<close> whose characters are
  code points below 256. The class \<open>[0-9]\<close> of the pattern and the digits of \<open>int\<close>
  in that range are the ten ASCII digits.
\<close>

definition is_ascii_digit :: "char \<Rightarrow> bool" where
  "is_ascii_digit c = (48 \<le> (of_char c :: nat) \<and> (of_char c :: nat) \<le> 57)"

text \<open>
  The query parameter \<open>block\<close> is required, has \<open>min_length=1\<close> and must match
  \<open>^[0-9](,[0-9])*$\<close>. Under Python's \<open>re\<close> the \<open>$\<close> matches at the end of the string
  and also just before a newline that ends it.
\<close>

fun block_tail :: "string \<Rightarrow> bool" where
  "block_tail [] = True"
| "block_tail [c] = (c = CHR 0x0A)"
| "block_tail (c # d # rest) = (c = CHR '','' \<and> is_ascii_digit d \<and> block_tail rest)"

definition block_regex :: "string \<Rightarrow> bool" where
  "block_regex s = (case s of [] \<Rightarrow> False | c # rest \<Rightarrow> is_ascii_digit c \<and> block_tail rest)"

definition block_query_valid :: "string \<Rightarrow> bool" where
  "block_query_valid s = (1 \<le> length s \<and> block_regex s)"

text \<open>\<open>s.split(sep)\<close> for a separator of one character; the result is never empty.\<close>

fun split_on :: "char \<Rightarrow> string \<Rightarrow> string list" where
  "split_on sep [] = [[]]"
| "split_on sep (x # xs) =
     (if x = sep then [] # split_on sep xs
      else (case split_on sep xs of [] \<Rightarrow> [[x]] | p # ps \<Rightarrow> (x # p) # ps))"

text \<open>
  \<open>int(s)\<close> for a string: surrounding whitespace is dropped, a sign may lead, and the
  digits may be grouped by single underscores; anything else raises ValueError. The
  whitespace that \<open>int\<close> drops is tab to carriage return (9 to 13) and the blank
  (32); the separators 28 to 31 are not dropped. Of the characters from 128 on, which
  CPython first maps to ASCII, the two spaces U+0085 and U+00A0 become blanks and
  every other one is refused.
\<close>

definition is_space :: "char \<Rightarrow> bool" where
  "is_space c =
     ((9 \<le> (of_char c :: nat) \<and> (of_char c :: nat) \<le> 13)
      \<or> (of_char c :: nat) = 32
      \<or> (of_char c :: nat) = 133
      \<or> (of_char c :: nat) = 160)"

definition strip :: "string \<Rightarrow> string" where
  "strip s = rev (dropWhile is_space (rev (dropWhile is_space s)))"

definition digit_val :: "char \<Rightarrow> int" where
  "digit_val c = int (of_char c) - 48"

fun int_digits :: "int \<Rightarrow> string \<Rightarrow> int option" where
  "int_digits acc [] = Some acc"
| "int_digits acc [c] = (if is_ascii_digit c then Some (10 * acc + digit_val c) else None)"
| "int_digits acc (c # d # rest) =
     (if c = CHR ''_''
      then (if is_ascii_digit d then int_digits (10 * acc + digit_val d) rest else None)
      else if is_ascii_digit c then int_digits (10 * acc + digit_val c) (d # rest)
      else None)"

definition int_unsigned :: "string \<Rightarrow> py_error + int" where
  "int_unsigned body =
     (case body of
        [] \<Rightarrow> Inl ValueError
      | d # ds \<Rightarrow>
          if is_ascii_digit d
          then (case int_digits (digit_val d) ds of None \<Rightarrow> Inl ValueError | Some v \<Rightarrow> Inr v)
          else Inl ValueError)"

definition py_int :: "string \<Rightarrow> py_error + int" where
  "py_int s =
     (case strip s of
        [] \<Rightarrow> Inl ValueError
      | c # rest \<Rightarrow>
          if c = CHR ''-'' then (case int_unsigned rest of Inl e \<Rightarrow> Inl e | Inr v \<Rightarrow> Inr (- v))
          else if c = CHR ''+'' then int_unsigned rest
          else int_unsigned (c # rest))"

fun map_int :: "string list \<Rightarrow> py_error + int list" where
  "map_int [] = Inr []"
| "map_int (p # ps) =
     (case py_int p of
        Inl e \<Rightarrow> Inl e
      | Inr v \<Rightarrow> (case map_int ps of Inl e \<Rightarrow> Inl e | Inr vs \<Rightarrow> Inr (v # vs)))"

text \<open>The function \<open>block\<close>: \<open>tuple(map(int, block.split(",")))\<close>.\<close>

definition block :: "string \<Rightarrow> py_error + int list" where
  "block s = map_int (split_on CHR '','' s)"

text \<open>
  A route answers with a response or with an HTTP error status. The dependency
  \<open>Depends(block)\<close> answers 422 when the parameter is missing or fails its validation,
  and runs \<open>block\<close> otherwise; an exception that no handler catches is a 500.
\<close>

datatype 'r http = HTTPException nat | Response 'r

definition block_dependency :: "string option \<Rightarrow> nat + int list" where
  "block_dependency q =
     (case q of
        None \<Rightarrow> Inl 422
      | Some s \<Rightarrow>
          if block_query_valid s
          then (case block s of Inl e \<Rightarrow> Inl 500 | Inr parsed_block \<Rightarrow> Inr parsed_block)
          else Inl 422)"

text \<open>A component of a block tuple that is a single decimal digit.\<close>

definition single_digit :: "int \<Rightarrow> bool" where
  "single_digit v = (0 \<le> v \<and> v \<le> 9)"

text \<open>
  \<open>blob_array\<close> and \<open>blob_variable\<close>. The data source (already looked up) is the function
  \<open>blocks\<close> from a block to its chunk, which raises IndexError out of range;
  \<open>respond\<close> is \<open>construct_array_response\<close> after \<open>get_chunk\<close>, which gives the
  response or the supported media types of \<open>UnsupportedMediaTypes\<close>.
\<close>

definition blob_array ::
  "(int list \<Rightarrow> py_error + 'a) \<Rightarrow> ('a \<Rightarrow> string list + 'r) \<Rightarrow> string option \<Rightarrow> 'r http" where
  "blob_array blocks respond q =
     (case block_dependency q of
        Inl status \<Rightarrow> HTTPException status
      | Inr parsed_block \<Rightarrow>
          (case blocks parsed_block of
             Inl IndexError \<Rightarrow> HTTPException 422
           | Inl e \<Rightarrow> HTTPException 500
           | Inr chunk \<Rightarrow>
               (case respond chunk of
                  Inl supported_types \<Rightarrow> HTTPException 406
                | Inr response \<Rightarrow> Response response)))"

definition blob_variable ::
  "(int list \<Rightarrow> py_error + 'a) \<Rightarrow> ('a \<Rightarrow> string list + 'r) \<Rightarrow> string option \<Rightarrow> 'r http" where
  "blob_variable blocks respond q =
     (case block_dependency q of
        Inl status \<Rightarrow> HTTPException status
      | Inr parsed_block \<Rightarrow>
          (case blocks parsed_block of
             Inl IndexError \<Rightarrow> HTTPException 422
           | Inl e \<Rightarrow> HTTPException 500
           | Inr chunk \<Rightarrow>
               (case respond chunk of
                  Inl supported_types \<Rightarrow> HTTPException 406
                | Inr response \<Rightarrow> Response response)))"

section \<open>Rounding to double\<close>

lemma rhe_bounds: "x - 1 / 2 \<le> of_int (round_half_even x) \<and> of_int (round_half_even x) \<le> x + 1 / 2"
  unfolding round_half_even_def Let_def by (simp; linarith)

lemma rhe_int: "round_half_even (of_int n) = n"
  by (simp add: round_half_even_def)

lemma rhe_floor: "\<lfloor>x\<rfloor> \<le> round_half_even x \<and> round_half_even x \<le> \<lfloor>x\<rfloor> + 1"
  by (simp add: round_half_even_def Let_def)

lemma rhe_mono:
  assumes "x \<le> y"
  shows "round_half_even x \<le> round_half_even y"
proof (cases "\<lfloor>x\<rfloor> = \<lfloor>y\<rfloor>")
  case True
  with assms show ?thesis
    by (auto simp: round_half_even_def Let_def)
next
  case False
  with assms have "\<lfloor>x\<rfloor> + 1 \<le> \<lfloor>y\<rfloor>"
    using floor_mono [OF assms] by linarith
  with rhe_floor [of x] rhe_floor [of y] show ?thesis
    by linarith
qed

lemma bitlen_powi:
  assumes "0 < a"
  shows "(2::rat) powi (bitlen a - 1) \<le> of_int a \<and> of_int a < (2::rat) powi bitlen a"
proof -
  from assms have l: "1 \<le> bitlen a"
    by (auto simp: bitlen_alt_def)
  from bitlen_bounds [OF assms]
  have "(of_int (2 ^ nat (bitlen a - 1)) :: rat) \<le> of_int a"
    and "(of_int a :: rat) < of_int (2 ^ nat (bitlen a))"
    by (simp_all only: of_int_le_iff of_int_less_iff)
  with l show ?thesis
    by (simp add: power_int_def)
qed

lemma binade_bounds:
  assumes "0 < x"
  shows "2 powi binade x \<le> x \<and> x < 2 powi (binade x + 1)"
proof -
  obtain a b where q: "quotient_of x = (a, b)"
    by (cases "quotient_of x")
  then have b: "0 < b" and x: "x = of_int a / of_int b"
    using quotient_of_denom_pos quotient_of_div by blast+
  with assms have a: "0 < a"
    by (simp add: zero_less_divide_iff)
  define d where "d = bitlen a - bitlen b"
  from b have rb: "(0::rat) < of_int b"
    by simp
  have up: "x < 2 powi (d + 1)"
  proof -
    have "(of_int a :: rat) < 2 powi bitlen a"
      using bitlen_powi [OF a] by blast
    also have "\<dots> = 2 powi (d + 1) * 2 powi (bitlen b - 1)"
      by (simp add: d_def flip: power_int_add)
    also have "\<dots> \<le> 2 powi (d + 1) * of_int b"
      using bitlen_powi [OF b] by (intro mult_left_mono) simp_all
    finally show ?thesis
      using rb by (simp add: x pos_divide_less_eq)
  qed
  have lo: "2 powi (d - 1) < x"
  proof -
    have "(2::rat) powi (d - 1) * of_int b < 2 powi (d - 1) * 2 powi bitlen b"
      using bitlen_powi [OF b] by (intro mult_strict_left_mono) simp_all
    also have "\<dots> = 2 powi (bitlen a - 1)"
      by (simp add: d_def flip: power_int_add)
    also have "\<dots> \<le> of_int a"
      using bitlen_powi [OF a] by blast
    finally show ?thesis
      using rb by (simp add: x pos_less_divide_eq)
  qed
  show ?thesis
  proof (cases "2 powi d \<le> x")
    case True
    with q up show ?thesis
      by (simp add: binade_def d_def)
  next
    case False
    with q lo show ?thesis
      by (simp add: binade_def d_def)
  qed
qed

lemma binade_unique:
  assumes "2 powi e \<le> x" and "x < 2 powi (e + 1)"
  shows "binade x = e"
proof -
  have pos: "0 < x"
    using assms(1) by (rule less_le_trans [rotated]) simp
  from binade_bounds [OF pos] have b1: "2 powi binade x \<le> x" and b2: "x < 2 powi (binade x + 1)"
    by blast+
  have "(2::rat) powi e < 2 powi (binade x + 1)"
    using assms(1) b2 by simp
  then have "e < binade x + 1"
    by (metis linorder_not_le power_int_increasing one_le_numeral)
  moreover have "(2::rat) powi binade x < 2 powi (e + 1)"
    using b1 assms(2) by simp
  then have "binade x < e + 1"
    by (metis linorder_not_le power_int_increasing one_le_numeral)
  ultimately show ?thesis
    by simp
qed

lemma to_double_pos:
  assumes "0 < x"
  shows "to_double x = of_int (round_half_even (x / 2 powi (binade x - 52))) * 2 powi (binade x - 52)"
  using assms by (simp add: to_double_def Let_def)

lemma binade_fifth: "binade (1 / 5) = - 3"
  by (rule binade_unique) (simp_all add: power_int_minus)

lemma rhe_fifth: "round_half_even (1 / 5 / 2 powi (- 55)) = 7205759403792794"
proof -
  have v: "(1 / 5 / 2 powi (- 55) :: rat) = 36028797018963968 / 5"
    by (simp add: power_int_minus)
  have f: "\<lfloor>36028797018963968 / 5 :: rat\<rfloor> = 7205759403792793"
    by (simp add: floor_eq_iff)
  show ?thesis
    unfolding v round_half_even_def Let_def f by simp
qed

lemma double_fifth: "to_double (1 / 5) = 3602879701896397 / 2 ^ 54"
proof -
  have "to_double (1 / 5) = of_int (round_half_even (1 / 5 / 2 powi (- 55))) * 2 powi (- 55)"
    unfolding to_double_pos [of "1 / 5", simplified] binade_fifth by simp
  then show ?thesis
    unfolding rhe_fifth by (simp add: power_int_minus)
qed

lemma to_double_below:
  assumes "0 < x" and "x \<le> 1 / 5"
  shows "to_double x \<le> to_double (1 / 5)"
proof -
  let ?b = "binade x"
  from binade_bounds [OF assms(1)] have b1: "2 powi ?b \<le> x" and b2: "x < 2 powi (?b + 1)"
    by blast+
  from b1 assms(2) have "(2::rat) powi ?b < 2 powi (- 2)"
    by (simp add: power_int_minus)
  then have "?b < - 2"
    by (metis linorder_not_le power_int_increasing one_le_numeral)
  then consider "?b = - 3" | "?b < - 3"
    by linarith
  then show ?thesis
  proof cases
    case 1
    from assms(2) have "x / 2 powi (- 55) \<le> 1 / 5 / 2 powi (- 55)"
      by (intro divide_right_mono) simp_all
    then have "round_half_even (x / 2 powi (- 55)) \<le> round_half_even (1 / 5 / 2 powi (- 55))"
      by (rule rhe_mono)
    then have "(of_int (round_half_even (x / 2 powi (- 55))) :: rat) * 2 powi (- 55)
                 \<le> of_int (round_half_even (1 / 5 / 2 powi (- 55))) * 2 powi (- 55)"
      by (intro mult_right_mono) simp_all
    then show ?thesis
      unfolding to_double_pos [OF assms(1)] to_double_pos [of "1 / 5", simplified] 1 binade_fifth
      by simp
  next
    case 2
    have p: "(0::rat) < 2 powi (?b - 52)"
      by simp
    have "x / 2 powi (?b - 52) < 2 powi (?b + 1) / 2 powi (?b - 52)"
      using b2 p by (simp add: divide_strict_right_mono)
    also have "\<dots> = 2 powi 53"
      by (simp flip: power_int_diff)
    finally have "x / 2 powi (?b - 52) \<le> of_int (2 ^ 53)"
      by simp
    then have "round_half_even (x / 2 powi (?b - 52)) \<le> round_half_even (of_int (2 ^ 53))"
      by (rule rhe_mono)
    then have "round_half_even (x / 2 powi (?b - 52)) \<le> 2 ^ 53"
      unfolding rhe_int .
    then have "(of_int (round_half_even (x / 2 powi (?b - 52))) :: rat) \<le> 2 powi 53"
      by (metis of_int_le_iff of_int_numeral of_int_power power_int_numeral)
    then have "to_double x \<le> 2 powi 53 * 2 powi (?b - 52)"
      unfolding to_double_pos [OF assms(1)] using p by (intro mult_right_mono) simp_all
    also have "\<dots> = 2 powi (?b + 1)"
    proof -
      have "?b + 1 = 53 + (?b - 52)"
        by simp
      then have "(2::rat) powi (?b + 1) = 2 powi (53 + (?b - 52))"
        by (rule arg_cong)
      also have "\<dots> = 2 powi 53 * 2 powi (?b - 52)"
        by (rule power_int_add) simp
      finally show ?thesis
        by (rule sym)
    qed
    also have "\<dots> \<le> 2 powi (- 3)"
      using 2 by (intro power_int_increasing) simp_all
    also have "\<dots> \<le> to_double (1 / 5)"
      unfolding double_fifth by (simp add: power_int_minus)
    finally show ?thesis .
  qed
qed

lemma to_double_above:
  assumes "1 / 5 + 1 / 245 \<le> x" and "x \<le> 1"
  shows "to_double (1 / 5) < to_double x"
proof -
  let ?b = "binade x"
  from assms(1) have pos: "0 < x"
    by simp
  from binade_bounds [OF pos] have b1: "2 powi ?b \<le> x"
    by blast
  with assms(2) have "(2::rat) powi ?b < 2 powi 1"
    by simp
  then have "?b < 1"
    by (metis linorder_not_le power_int_increasing one_le_numeral)
  then have e: "?b - 52 \<le> - 52"
    by simp
  have p: "(0::rat) < 2 powi (?b - 52)"
    by simp
  have "(2::rat) powi (?b - 52) \<le> 2 powi (- 52)"
    using e by (intro power_int_increasing) simp_all
  then have ulp: "(2::rat) powi (?b - 52) / 2 \<le> 1 / 2 ^ 53"
    by (simp add: power_int_minus field_simps)
  have "x / 2 powi (?b - 52) - 1 / 2 \<le> of_int (round_half_even (x / 2 powi (?b - 52)))"
    using rhe_bounds by blast
  then have "(x / 2 powi (?b - 52) - 1 / 2) * 2 powi (?b - 52) \<le> to_double x"
    unfolding to_double_pos [OF pos] using p by (intro mult_right_mono) simp_all
  moreover have "(x / 2 powi (?b - 52) - 1 / 2) * 2 powi (?b - 52) = x - 2 powi (?b - 52) / 2"
    using p by (simp add: field_simps)
  ultimately have "x - 1 / 2 ^ 53 \<le> to_double x"
    using ulp by linarith
  with assms(1) show ?thesis
    unfolding double_fifth by simp
qed

lemma to_double_zero: "to_double 0 = 0"
  by (simp add: to_double_def)

text \<open>
  For a count of at most 10 over a total, comparing the double of the quotient with
  the double of \<open>0.2\<close> is comparing the quotient with \<open>1/5\<close>.
\<close>

lemma float_threshold_exact:
  fixes k t :: int
  assumes "0 \<le> k" "k \<le> 10" "k \<le> t" "0 < t"
  shows "to_double (of_int k / of_int t) \<le> to_double (2 / 10)
           \<longleftrightarrow> (of_int k / of_int t :: rat) \<le> 2 / 10"
proof (cases "k = 0")
  case True
  then show ?thesis
    by (simp add: to_double_zero double_fifth)
next
  case False
  with assms have k: "0 < k"
    by simp
  let ?x = "of_int k / of_int t :: rat"
  from k assms(4) have pos: "0 < ?x"
    by simp
  from assms(3,4) have le1: "?x \<le> 1"
    by (simp add: pos_divide_le_eq)
  show ?thesis
  proof (cases "?x \<le> 1 / 5")
    case True
    with to_double_below [OF pos] show ?thesis
      by simp
  next
    case False
    then have "t < 5 * k"
      using assms(4) by (simp add: pos_le_divide_eq pos_divide_le_eq field_simps) linarith?
    with assms(2) have t49: "t \<le> 49" and d1: "1 \<le> 5 * k - t"
      by simp_all
    have "(1 / 245 :: rat) \<le> of_int (5 * k - t) / of_int (5 * t)"
      using d1 t49 assms(4) by (intro frac_le) simp_all
    also have "\<dots> = ?x - 1 / 5"
      using assms(4) by (simp add: field_simps)
    finally have "1 / 5 + 1 / 245 \<le> ?x"
      by linarith
    from to_double_above [OF this le1] False show ?thesis
      by simp
  qed
qed

section \<open>The detector \<open>subdirectory_handler\<close>\<close>

text \<open>
  The tests of the source on a name are the notions of the specification: the
  \<open>startswith\<close> test is \<open>hidden\<close>, and the suffix and digit tests together are
  \<open>digits_before\<close>.
\<close>

lemma startswith_dot: "startswith nm (ustr ''.'') \<longleftrightarrow> hidden nm"
  by (cases nm) (simp_all add: startswith_def ustr_def hidden_def)

lemma rfind_last_dot:
  assumes "46 \<notin> set e"
  shows "rfind (base @ 46 # e) 46 = int (length base)"
proof -
  from assms have "\<And>x. x \<in> set (rev e) \<Longrightarrow> x \<noteq> 46"
    by auto
  then have "takeWhile (\<lambda>x. x \<noteq> 46) (rev e @ 46 # rev base)
               = rev e @ takeWhile (\<lambda>x. x \<noteq> 46) (46 # rev base)"
    by (rule takeWhile_append2)
  then have "takeWhile (\<lambda>x. x \<noteq> 46) (rev e @ 46 # rev base) = rev e"
    by simp
  then show ?thesis
    by (simp add: rfind_def)
qed

lemma last3_digits:
  assumes "st \<noteq> []"
  shows "isdigit digit (last3 st) \<longleftrightarrow> list_all digit (take 3 (rev st))"
proof -
  have "rev (last3 st) = take 3 (rev st)"
    by (simp add: last3_def take_rev)
  then have "set (last3 st) = set (take 3 (rev st))"
    by (metis set_rev)
  moreover from assms have "0 < length st"
    by simp
  then have "last3 st \<noteq> []"
    unfolding last3_def by (simp add: not_le)
  ultimately show ?thesis
    by (simp add: isdigit_def list_all_iff)
qed

lemma member_test:
  assumes ext: "ext = 46 # e" "e \<noteq> []" "46 \<notin> set e"
  shows "suffix_of nm = ext \<and> isdigit digit (last3 (stem nm)) \<longleftrightarrow> digits_before digit ext nm"
proof
  assume a: "suffix_of nm = ext \<and> isdigit digit (last3 (stem nm))"
  let ?i = "rfind nm 46"
  from a ext(1) have cond: "0 < ?i \<and> ?i < int (length nm) - 1"
    by (auto simp: suffix_of_def Let_def split: if_splits)
  with a have d: "drop (nat ?i) nm = ext" and s: "stem nm = take (nat ?i) nm"
    by (simp_all add: suffix_of_def stem_def Let_def)
  from d have "length ext = length nm - nat ?i"
    by (metis length_drop)
  with cond have l: "length nm - length ext = nat ?i" "length ext < length nm"
    by linarith+
  from cond have "take (nat ?i) nm \<noteq> []"
    by auto
  with a s have "list_all digit (take 3 (rev (take (nat ?i) nm)))"
    by (simp add: last3_digits)
  with d l show "digits_before digit ext nm"
    by (simp add: digits_before_def)
next
  assume b: "digits_before digit ext nm"
  define base where "base = take (length nm - length ext) nm"
  from b have nm: "nm = base @ ext" and ne: "base \<noteq> []"
    and dg: "list_all digit (take 3 (rev base))"
    unfolding digits_before_def base_def
    by (metis append_take_drop_id, auto)
  from ext(1,3) have i: "rfind nm 46 = int (length base)"
    unfolding nm by (simp add: rfind_last_dot)
  from ne ext(1,2) have cond: "0 < int (length base) \<and> int (length base) < int (length nm) - 1"
    unfolding nm by (cases e) simp_all
  from i cond have "suffix_of nm = ext" "stem nm = base"
    by (simp_all add: suffix_of_def stem_def Let_def nm)
  with ne dg show "suffix_of nm = ext \<and> isdigit digit (last3 (stem nm))"
    by (simp add: last3_digits)
qed

lemma sequence_member_test:
  "(suffix_of (name e) = ustr ''.tif'' \<or> suffix_of (name e) = ustr ''.tiff'')
     \<and> isdigit digit (last3 (stem (name e)))
   \<longleftrightarrow> sequence_member digit e"
proof -
  have tif: "ustr ''.tif'' = 46 # [116, 105, 102]" and tiff: "ustr ''.tiff'' = 46 # [116, 105, 102, 102]"
    by (simp_all add: ustr_def)
  have "suffix_of (name e) = ustr ''.tif'' \<and> isdigit digit (last3 (stem (name e)))
          \<longleftrightarrow> digits_before digit (ustr ''.tif'') (name e)"
    by (rule member_test [OF tif]) simp_all
  moreover
  have "suffix_of (name e) = ustr ''.tiff'' \<and> isdigit digit (last3 (stem (name e)))
          \<longleftrightarrow> digits_before digit (ustr ''.tiff'') (name e)"
    by (rule member_test [OF tiff]) simp_all
  ultimately show ?thesis
    unfolding sequence_member_def by blast
qed

lemma sniff_loop_eq:
  "sniff_loop digit loc es fps out =
     (fps @ map (\<lambda>e. joinpath loc (name e)) (filter (sequence_member digit) (filter eligible es)),
      out + int (length (filter (\<lambda>e. \<not> sequence_member digit e) (filter eligible es))))"
proof (induction es arbitrary: fps out)
  case Nil
  then show ?case by simp
next
  case (Cons e es)
  show ?case
    unfolding sniff_loop.simps startswith_dot sequence_member_test Cons.IH
    by (simp add: eligible_def)
qed

lemma sniff_loop_dir:
  "sniff_loop digit (location d) (children d) [] 0 =
     (map (\<lambda>e. joinpath (location d) (name e)) (matches digit d), int (length (outliers digit d)))"
  by (simp add: sniff_loop_eq matches_def outliers_def)

lemma eligible_split:
  "length (matches digit d) + length (outliers digit d) = length (filter eligible (children d))"
  unfolding matches_def outliers_def by (rule sum_length_filter_compl)

text \<open>With no eligible entry both counters stay 0 and the division raises.\<close>

lemma no_eligible_division_by_zero:
  assumes "filter eligible (children d) = []"
  shows "subdirectory_handler digit fingerprint d = Inl ZeroDivisionError"
proof -
  from assms eligible_split [of digit d] have "matches digit d = []" "outliers digit d = []"
    by simp_all
  then show ?thesis
    by (simp add: subdirectory_handler_def sniff_loop_dir py_truediv_def)
qed

text \<open>
  Claim C1. A directory with no eligible entry (no regular file that is not hidden)
  should give the no-match result without an error. The source divides
  \<open>outliers\<close> by \<open>outliers + len(filepaths)\<close>, which is \<open>0 / 0\<close> there: on an empty
  directory, and on one that holds only a subdirectory and a hidden file,
  \<open>subdirectory_handler\<close> raises ZeroDivisionError instead of returning \<open>None\<close>,
  whatever the digits and the digest are.
\<close>

theorem empty_directory_division_by_zero:
  "subdirectory_handler digit fingerprint \<lparr>location = ustr ''/data/run1'', children = []\<rparr>
     = Inl ZeroDivisionError
   \<and> subdirectory_handler digit fingerprint
       \<lparr>location = ustr ''/data/run1'',
        children = [\<lparr>is_file = False, name = ustr ''raw''\<rparr>,
                    \<lparr>is_file = True, name = ustr ''.DS_Store''\<rparr>]\<rparr>
     = Inl ZeroDivisionError"
  by (simp add: subdirectory_handler_def py_truediv_def startswith_def ustr_def)

lemma accept_arith:
  fixes m k :: nat
  assumes "0 < m + k"
  shows "(int k \<le> 10 \<and> to_double (of_int (int k) / of_int (int k + int m)) \<le> to_double (2 / 10))
         \<longleftrightarrow> (k \<le> 10 \<and> (k = 0 \<or> (of_nat k / of_nat (k + m) :: rat) \<le> 2 / 10))"
proof (cases "k \<le> 10")
  case True
  have p: "0 \<le> int k" "int k \<le> 10" "int k \<le> int k + int m" "0 < int k + int m"
    using True assms by linarith+
  have r: "(of_int (int k) / of_int (int k + int m) :: rat) \<le> 2 / 10
             \<longleftrightarrow> k = 0 \<or> (of_nat k / of_nat (k + m) :: rat) \<le> 2 / 10"
    by auto
  from True show ?thesis
    unfolding float_threshold_exact [OF p] r by simp
next
  case False
  then show ?thesis
    by simp
qed

lemma accepts_has_match:
  assumes "accepts digit d" and "filter eligible (children d) \<noteq> []"
  shows "matches digit d \<noteq> []"
proof
  assume m: "matches digit d = []"
  with eligible_split [of digit d] assms(2) have k: "0 < length (outliers digit d)"
    by simp
  with assms(1) m show False
    by (simp add: accepts_def)
qed

text \<open>
  Claim C5. For a directory with at least one eligible entry (a regular file that is
  not hidden), \<open>subdirectory_handler\<close> returns a reader, over the sorted paths of the
  matches, if and only if \<open>outliers \<le> 10\<close> and (\<open>outliers = 0\<close> or
  \<open>outliers / (outliers + matches) \<le> 0.2\<close>), and returns \<open>None\<close> otherwise; 100
  matches with 5 outliers are accepted, 50 matches with 20 outliers are rejected.
  The matches and the outliers are those of the specification's words, for the
  digits of Python, whichever they are.
\<close>

theorem subdirectory_handler_rule:
  assumes "filter eligible (children d) \<noteq> []"
  shows "subdirectory_handler digit fingerprint d =
           (if accepts digit d
            then Inr (Some (TiffSequenceReader fingerprint
                   \<lparr>files = sort (map (\<lambda>e. joinpath (location d) (name e)) (matches digit d))\<rparr>))
            else Inr None)
         \<and> (length (matches digit d) = 100 \<and> length (outliers digit d) = 5 \<longrightarrow> accepts digit d)
         \<and> (length (matches digit d) = 50 \<and> length (outliers digit d) = 20 \<longrightarrow> \<not> accepts digit d)"
proof -
  let ?m = "length (matches digit d)" and ?k = "length (outliers digit d)"
  let ?paths = "sort (map (\<lambda>e. joinpath (location d) (name e)) (matches digit d))"
  from assms eligible_split [of digit d] have pos: "0 < ?m + ?k"
    by simp
  then have nz: "int ?k + int ?m \<noteq> 0"
    by linarith
  have cond: "(int ?k \<le> 10
                 \<and> to_double (of_int (int ?k) / of_int (int ?k + int ?m)) \<le> to_double (2 / 10))
                \<longleftrightarrow> accepts digit d"
    unfolding accepts_def using accept_arith [OF pos] by simp
  have unfolded: "subdirectory_handler digit fingerprint d =
           (if int ?k \<le> 10
                 \<and> to_double (of_int (int ?k) / of_int (int ?k + int ?m)) \<le> to_double (2 / 10)
            then (case TiffSequence ?paths of
                    Inl e \<Rightarrow> Inl e
                  | Inr sq \<Rightarrow> Inr (Some (TiffSequenceReader fingerprint sq)))
            else Inr None)"
    using nz
    by (simp only: subdirectory_handler_def sniff_loop_dir py_truediv_def prod.case sum.case
          length_map if_False RELATIVE_THRESHOLD_def ABSOLUTE_THRESHOLD_def)
  have main: "subdirectory_handler digit fingerprint d =
           (if accepts digit d
            then Inr (Some (TiffSequenceReader fingerprint \<lparr>files = ?paths\<rparr>))
            else Inr None)"
  proof (cases "accepts digit d")
    case True
    then have "matches digit d \<noteq> []"
      using assms by (rule accepts_has_match)
    then have ne: "?paths \<noteq> []"
      by (metis length_sort list.map_disc_iff length_0_conv)
    then have "TiffSequence ?paths = Inr \<lparr>files = ?paths\<rparr>"
      by (simp add: TiffSequence_def)
    with True show ?thesis
      unfolding unfolded cond by (simp only: if_True sum.case)
  next
    case False
    then show ?thesis
      unfolding unfolded cond by (simp only: if_False)
  qed
  have ex1: "?m = 100 \<and> ?k = 5 \<longrightarrow> accepts digit d"
    by (simp add: accepts_def)
  have ex2: "?m = 50 \<and> ?k = 20 \<longrightarrow> \<not> accepts digit d"
    by (simp add: accepts_def)
  from main ex1 ex2 show ?thesis
    by blast
qed

lemma digits3_digit: "list_all ascii_digit (digits3 i)"
proof -
  have "\<And>x::nat. x mod 10 \<le> 9" by presburger
  then show ?thesis
    by (simp add: digits3_def ascii_digit_def)
qed

lemma tiff_entry_member: "eligible (tiff_entry i) \<and> sequence_member ascii_digit (tiff_entry i)"
proof -
  obtain a b c where d: "digits3 i = [a, b, c]"
    by (simp add: digits3_def)
  with digits3_digit [of i] show ?thesis
    by (simp add: tiff_entry_def eligible_def hidden_def sequence_member_def digits_before_def
          ustr_def)
qed

lemma other_entry_outlier: "eligible (other_entry i) \<and> \<not> sequence_member ascii_digit (other_entry i)"
proof -
  obtain a b c where d: "digits3 i = [a, b, c]"
    by (simp add: digits3_def)
  then show ?thesis
    by (simp add: other_entry_def eligible_def hidden_def sequence_member_def digits_before_def
          ustr_def)
qed

lemma dark_entry_outlier: "eligible (dark_entry i) \<and> \<not> sequence_member ascii_digit (dark_entry i)"
proof -
  obtain a b c where d: "digits3 i = [a, b, c]"
    by (simp add: digits3_def)
  then show ?thesis
    by (simp add: dark_entry_def eligible_def hidden_def sequence_member_def digits_before_def
          ustr_def ascii_digit_def)
qed

lemma example_counts:
  "length (matches ascii_digit \<lparr>location = loc, children = tiff_files n @ other_files k\<rparr>) = n"
  "length (outliers ascii_digit \<lparr>location = loc, children = tiff_files n @ other_files k\<rparr>) = k"
  "length (matches ascii_digit \<lparr>location = loc, children = dark_files k @ tiff_files n\<rparr>) = n"
  "length (outliers ascii_digit \<lparr>location = loc, children = dark_files k @ tiff_files n\<rparr>) = k"
  by (simp_all add: matches_def outliers_def tiff_files_def other_files_def dark_files_def
        filter_map o_def tiff_entry_member other_entry_outlier dark_entry_outlier)

text \<open>
  The rule at the two example directories: both have eligible entries; the first is
  accepted, whatever the digest is, and the second rejected. In the second directory
  the 20 outliers have the extension \<open>.tif\<close> and fail the test of the digits only.
\<close>

theorem subdirectory_handler_rule_witness:
  "filter eligible (children dir_100_5) \<noteq> []
   \<and> filter eligible (children dir_50_20) \<noteq> []
   \<and> length (matches ascii_digit dir_100_5) = 100
   \<and> length (outliers ascii_digit dir_100_5) = 5
   \<and> length (matches ascii_digit dir_50_20) = 50
   \<and> length (outliers ascii_digit dir_50_20) = 20
   \<and> (\<forall>fingerprint. \<exists>reader. subdirectory_handler ascii_digit fingerprint dir_100_5 = Inr (Some reader))
   \<and> (\<forall>fingerprint. subdirectory_handler ascii_digit fingerprint dir_50_20 = Inr None)"
proof -
  have m1: "length (matches ascii_digit dir_100_5) = 100"
    and k1: "length (outliers ascii_digit dir_100_5) = 5"
    and m2: "length (matches ascii_digit dir_50_20) = 50"
    and k2: "length (outliers ascii_digit dir_50_20) = 20"
    by (simp_all add: dir_100_5_def dir_50_20_def example_counts)
  from m1 eligible_split [of ascii_digit dir_100_5]
  have e1: "filter eligible (children dir_100_5) \<noteq> []"
    by auto
  from m2 eligible_split [of ascii_digit dir_50_20]
  have e2: "filter eligible (children dir_50_20) \<noteq> []"
    by auto
  have "\<exists>reader. subdirectory_handler ascii_digit fingerprint dir_100_5 = Inr (Some reader)"
    for fingerprint
    using subdirectory_handler_rule [OF e1, of ascii_digit fingerprint] m1 k1 by simp
  moreover have "subdirectory_handler ascii_digit fingerprint dir_50_20 = Inr None"
    for fingerprint
    using subdirectory_handler_rule [OF e2, of ascii_digit fingerprint] m2 k2 by simp
  ultimately show ?thesis
    using e1 e2 m1 k1 m2 k2 by blast
qed

text \<open>
  The detector reads the digit property only at the characters of the names it is
  given: two properties that agree there give the same result. So for a directory of
  ASCII names the digits of ASCII stand for those of Python.
\<close>

lemma sequence_member_cong:
  assumes "\<forall>c\<in>set (name e). digit c = digit' c"
  shows "sequence_member digit e = sequence_member digit' e"
proof -
  have "set (take 3 (rev (take n (name e)))) \<subseteq> set (name e)" for n
    by (metis set_take_subset set_rev subset_trans)
  with assms have
    "list_all digit (take 3 (rev (take n (name e)))) = list_all digit' (take 3 (rev (take n (name e))))"
    for n
    unfolding list_all_iff by blast
  then show ?thesis
    by (simp add: sequence_member_def digits_before_def)
qed

lemma subdirectory_handler_digits:
  assumes "\<forall>e\<in>set (children d). \<forall>c\<in>set (name e). digit c = digit' c"
  shows "subdirectory_handler digit fingerprint d = subdirectory_handler digit' fingerprint d"
proof -
  have same: "sequence_member digit e = sequence_member digit' e"
    if "e \<in> set (filter eligible (children d))" for e
    using that assms by (intro sequence_member_cong) auto
  have "matches digit d = matches digit' d"
    unfolding matches_def by (rule filter_cong [OF refl]) (rule same)
  moreover have "outliers digit d = outliers digit' d"
    unfolding outliers_def by (rule filter_cong [OF refl]) (simp add: same)
  ultimately have "matches digit d = matches digit' d" "outliers digit d = outliers digit' d"
    by simp_all
  then show ?thesis
    by (simp add: subdirectory_handler_def sniff_loop_dir)
qed

section \<open>The block parameter of the routes\<close>

lemma digit_facts:
  assumes "is_ascii_digit d"
  shows "d \<noteq> CHR '',''" "d \<noteq> CHR ''-''" "d \<noteq> CHR ''+''" "d \<noteq> CHR ''_''"
    "d \<noteq> CHR 0x0A" "\<not> is_space d" "0 \<le> digit_val d" "digit_val d \<le> 9"
  using assms by (auto simp: is_ascii_digit_def is_space_def digit_val_def)

lemma py_int_digit:
  assumes "is_ascii_digit d"
  shows "py_int [d] = Inr (digit_val d)" "py_int [d, CHR 0x0A] = Inr (digit_val d)"
  using assms digit_facts [OF assms]
  by (simp_all add: py_int_def strip_def int_unsigned_def is_space_def)

lemma split_on_digit:
  assumes "is_ascii_digit d"
  shows "split_on CHR '','' (d # CHR '','' # rest) = [d] # split_on CHR '','' rest"
  using digit_facts(1) [OF assms] by simp

lemma valid_block_parses:
  "block_tail rest \<Longrightarrow> is_ascii_digit d \<Longrightarrow>
     \<exists>vs. map_int (split_on CHR '','' (d # rest)) = Inr vs \<and> vs \<noteq> [] \<and> list_all single_digit vs"
proof (induction rest arbitrary: d rule: block_tail.induct)
  case 1
  then show ?case
    using digit_facts [of d] by (simp add: py_int_digit single_digit_def)
next
  case (2 c)
  then show ?case
    using digit_facts [of d] by (simp add: py_int_digit single_digit_def)
next
  case (3 c e rest)
  from "3.prems" have c: "c = CHR '',''" and e: "is_ascii_digit e" and t: "block_tail rest"
    by simp_all
  from "3.IH" [OF t e] obtain vs where
    vs: "map_int (split_on CHR '','' (e # rest)) = Inr vs" "list_all single_digit vs"
    by blast
  from "3.prems"(2) have "split_on CHR '','' (d # c # e # rest) = [d] # split_on CHR '','' (e # rest)"
    unfolding c by (rule split_on_digit)
  then have "map_int (split_on CHR '','' (d # c # e # rest)) = Inr (digit_val d # vs)"
    by (simp only: map_int.simps py_int_digit(1) [OF "3.prems"(2)] vs(1) sum.case)
  moreover have "list_all single_digit (digit_val d # vs)"
    using vs(2) digit_facts(7,8) [OF "3.prems"(2)] by (simp add: single_digit_def)
  ultimately show ?case
    by blast
qed

lemma valid_query_parses:
  assumes "block_query_valid s"
  shows "\<exists>vs. block s = Inr vs \<and> vs \<noteq> [] \<and> list_all single_digit vs"
proof -
  from assms obtain d rest where "s = d # rest" "is_ascii_digit d" "block_tail rest"
    by (auto simp: block_query_valid_def block_regex_def split: list.splits)
  then show ?thesis
    unfolding block_def using valid_block_parses by blast
qed

text \<open>
  Claim C10. A \<open>block\<close> parameter that passes the validation parses without an error
  into a non-empty tuple whose components all lie between 0 and 9; so does every tuple
  that the dependency hands to a route. Hence the routes \<open>blob_array\<close> and
  \<open>blob_variable\<close> never ask the data source for a block with a component above 9:
  their answer is the same for any two data sources that agree on the blocks of
  single-digit components.
\<close>

theorem block_components_single_digit:
  "(block_query_valid s \<longrightarrow> (\<exists>b. block s = Inr b \<and> b \<noteq> [] \<and> list_all single_digit b))
   \<and> (block_dependency q = Inr parsed_block \<longrightarrow>
        parsed_block \<noteq> [] \<and> list_all single_digit parsed_block)
   \<and> ((\<forall>b. list_all single_digit b \<longrightarrow> blocks b = blocks' b) \<longrightarrow>
        blob_array blocks respond q = blob_array blocks' respond q
        \<and> blob_variable blocks respond q = blob_variable blocks' respond q)"
proof -
  have dep: "parsed_block \<noteq> [] \<and> list_all single_digit parsed_block"
    if "block_dependency q = Inr parsed_block" for parsed_block
  proof -
    from that obtain s where s: "q = Some s" "block_query_valid s" "block s = Inr parsed_block"
      by (auto simp: block_dependency_def split: option.splits if_splits sum.splits)
    with valid_query_parses [OF s(2)] show ?thesis
      by auto
  qed
  have route: "blob_array blocks respond q = blob_array blocks' respond q
        \<and> blob_variable blocks respond q = blob_variable blocks' respond q"
    if agree: "\<forall>b. list_all single_digit b \<longrightarrow> blocks b = blocks' b"
  proof (cases "block_dependency q")
    case (Inl status)
    then show ?thesis
      by (simp add: blob_array_def blob_variable_def)
  next
    case (Inr b)
    with dep agree have "blocks b = blocks' b"
      by blast
    with Inr show ?thesis
      by (simp add: blob_array_def blob_variable_def)
  qed
  from valid_query_parses dep route show ?thesis
    by blast
qed

text \<open>
  The parameter \<open>7,0,0\<close> is valid and parses to \<open>(7, 0, 0)\<close>; \<open>10,0,0\<close> is refused
  with status 422.
\<close>

theorem block_components_single_digit_witness:
  "block_query_valid ''7,0,0''
   \<and> block ''7,0,0'' = Inr [7, 0, 0]
   \<and> block_dependency (Some ''7,0,0'') = Inr [7, 0, 0]
   \<and> list_all single_digit [7, 0, 0]
   \<and> block_dependency (Some ''10,0,0'') = Inl 422"
proof -
  have v: "block_query_valid ''7,0,0''"
    by (simp add: block_query_valid_def block_regex_def is_ascii_digit_def)
  have b: "block ''7,0,0'' = Inr [7, 0, 0]"
    by (simp add: block_def py_int_def strip_def int_unsigned_def is_space_def
          is_ascii_digit_def digit_val_def)
  have d: "block_dependency (Some ''7,0,0'') = Inr [7, 0, 0]"
    using v b by (simp add: block_dependency_def)
  have n: "block_dependency (Some ''10,0,0'') = Inl 422"
    by (simp add: block_dependency_def block_query_valid_def block_regex_def is_ascii_digit_def)
  from block_components_single_digit [of "''7,0,0''" "Some ''7,0,0''" "[7, 0, 0]"] d
  have "list_all single_digit [7, 0, 0]"
    by blast
  with v b d n show ?thesis
    by blast
qed

section \<open>The reader over a consistent cache\<close>

lemma safe_asarray_eq: "safe_asarray rd sq index = asarray rd sq index"
  by (simp add: safe_asarray_def split: sum.splits py_error.splits)

lemma key_index_own: "key_index base (base @ [KInt i]) = Some i"
  by (simp add: key_index_def)

lemma key_index_base: "key_index base base = None"
  by (simp add: key_index_def)

lemma entry_ok_frame:
  "asarray rd (seq r) (Some i) = Inr v \<Longrightarrow> entry_ok rd r (cache_key r @ [KInt i], v)"
  by (simp add: entry_ok_def key_index_own)

lemma entry_ok_whole:
  "asarray rd (seq r) None = Inr v \<Longrightarrow> entry_ok rd r (cache_key r, v)"
  by (simp add: entry_ok_def key_index_base)

lemma cache_ok_lookup:
  assumes "cache_ok rd r c" and "map_of (entries c) k = Some v"
  shows "entry_ok rd r (k, v)"
  using assms by (auto simp: cache_ok_def list_all_iff dest: map_of_SomeD)

lemma cache_ok_empty: "cache_ok rd r (empty_cache cap)"
  by (simp add: cache_ok_def empty_cache_def)

text \<open>One call of the cache for a key whose computation is consistent with the reader.\<close>

lemma with_object_cache_ok:
  assumes ok: "cache_ok rd r c"
    and new: "\<And>v. compute = Inr v \<Longrightarrow> entry_ok rd r (k, v)"
    and old: "\<And>v. entry_ok rd r (k, v) \<Longrightarrow> compute = Inr v"
  shows "fst (with_object_cache k compute c) = compute
         \<and> cache_ok rd r (snd (with_object_cache k compute c))"
proof (cases "map_of (entries c) k")
  case None
  show ?thesis
  proof (cases compute)
    case (Inl e)
    with None ok show ?thesis
      by (simp add: with_object_cache_def)
  next
    case (Inr v)
    from ok new [OF Inr] have "list_all (entry_ok rd r) ((k, v) # entries c)"
      by (simp add: cache_ok_def)
    then have "list_all (entry_ok rd r) (take (capacity c) ((k, v) # entries c))"
      unfolding list_all_iff using set_take_subset by fast
    with None Inr show ?thesis
      by (simp add: with_object_cache_def cache_ok_def)
  qed
next
  case (Some v)
  from cache_ok_lookup [OF ok Some] have e: "entry_ok rd r (k, v)" .
  from ok have "list_all (entry_ok rd r) (filter (\<lambda>kv. fst kv \<noteq> k) (entries c))"
    by (simp add: cache_ok_def list_all_iff)
  with Some e old [OF e] show ?thesis
    by (simp add: with_object_cache_def cache_ok_def)
qed

lemma cached_frame:
  assumes "cache_ok rd r c"
  shows "fst (with_object_cache (cache_key r @ [KInt i]) (safe_asarray rd (seq r) (Some i)) c)
           = asarray rd (seq r) (Some i)
         \<and> cache_ok rd r
             (snd (with_object_cache (cache_key r @ [KInt i]) (safe_asarray rd (seq r) (Some i)) c))"
  unfolding safe_asarray_eq
  by (rule with_object_cache_ok [OF assms])
     (simp_all add: entry_ok_frame entry_ok_def key_index_own)

lemma cached_whole:
  assumes "cache_ok rd r c"
  shows "fst (with_object_cache (cache_key r) (safe_asarray rd (seq r) None) c)
           = asarray rd (seq r) None
         \<and> cache_ok rd r (snd (with_object_cache (cache_key r) (safe_asarray rd (seq r) None) c))"
  unfolding safe_asarray_eq
  by (rule with_object_cache_ok [OF assms])
     (simp_all add: entry_ok_whole entry_ok_def key_index_base)

lemma cached_frames_decode:
  "cache_ok rd r c \<Longrightarrow>
     fst (cached_frames rd r indices c) = decode_indices rd (seq r) indices
     \<and> cache_ok rd r (snd (cached_frames rd r indices c))"
proof (induction indices arbitrary: c)
  case Nil
  then show ?case by simp
next
  case (Cons i rest)
  obtain res c1 where w:
    "with_object_cache (cache_key r @ [KInt i]) (safe_asarray rd (seq r) (Some i)) c = (res, c1)"
    by (cases "with_object_cache (cache_key r @ [KInt i]) (safe_asarray rd (seq r) (Some i)) c")
  with cached_frame [OF Cons.prems, of i]
  have res: "res = asarray rd (seq r) (Some i)" and ok1: "cache_ok rd r c1"
    by simp_all
  show ?case
  proof (cases "asarray rd (seq r) (Some i)")
    case (Inl e)
    with w res ok1 show ?thesis by simp
  next
    case (Inr a)
    obtain res2 c2 where f: "cached_frames rd r rest c1 = (res2, c2)"
      by (cases "cached_frames rd r rest c1")
    with Cons.IH [OF ok1] have "res2 = decode_indices rd (seq r) rest" "cache_ok rd r c2"
      by simp_all
    with w res Inr f show ?thesis
      by (cases "decode_indices rd (seq r) rest") simp_all
  qed
qed

lemma stack_range_decode:
  assumes "cache_ok rd r c"
  shows "fst (stack_range rd r start stop step c) =
           (case stop of
              None \<Rightarrow> Inl TypeError
            | Some slice_stop \<Rightarrow>
                (case py_range (case start of None \<Rightarrow> 0 | Some s \<Rightarrow> s) slice_stop
                        (case step of None \<Rightarrow> 1 | Some s \<Rightarrow> s) of
                   Inl e \<Rightarrow> Inl e
                 | Inr indices \<Rightarrow>
                     (case decode_indices rd (seq r) indices of
                        Inl e \<Rightarrow> Inl e
                      | Inr as \<Rightarrow> numpy_stack as)))
         \<and> cache_ok rd r (snd (stack_range rd r start stop step c))"
proof (cases stop)
  case None
  with assms show ?thesis
    by (simp add: stack_range_def)
next
  case (Some slice_stop)
  let ?rng = "py_range (case start of None \<Rightarrow> 0 | Some s \<Rightarrow> s) slice_stop
                (case step of None \<Rightarrow> 1 | Some s \<Rightarrow> s)"
  show ?thesis
  proof (cases ?rng)
    case (Inl e)
    with Some assms show ?thesis
      by (simp add: stack_range_def)
  next
    case (Inr indices)
    obtain res c1 where f: "cached_frames rd r indices c = (res, c1)"
      by (cases "cached_frames rd r indices c")
    with cached_frames_decode [OF assms, of indices]
    have res: "res = decode_indices rd (seq r) indices" and ok1: "cache_ok rd r c1"
      by simp_all
    from Some Inr f res ok1 show ?thesis
      by (cases "decode_indices rd (seq r) indices") (simp_all add: stack_range_def)
  qed
qed

lemma py_range_unit: "py_range i (i + 1) 1 = Inr [i]"
  by (simp add: py_range_def)

lemma asarray_out_of_range:
  assumes "int (length (files sq)) \<le> i"
  shows "asarray rd sq (Some i) = Inl IndexError"
  using assms by (simp add: asarray_def list_getitem_def)

lemma asarray_in_range:
  assumes "0 \<le> i" and "i < int (length (files sq))"
  shows "asarray rd sq (Some i) = rd (files sq ! nat i)"
  using assms by (simp add: asarray_def list_getitem_def)

text \<open>A failed computation on a miss leaves the cache as it was.\<close>

lemma with_object_cache_failure:
  assumes "cache_ok rd r c" and "asarray rd (seq r) (Some i) = Inl e"
  shows "with_object_cache (cache_key r @ [KInt i]) (safe_asarray rd (seq r) (Some i)) c = (Inl e, c)"
proof (cases "map_of (entries c) (cache_key r @ [KInt i])")
  case None
  with assms(2) show ?thesis
    by (simp add: with_object_cache_def safe_asarray_eq)
next
  case (Some v)
  from cache_ok_lookup [OF assms(1) Some] assms(2) show ?thesis
    by (simp add: entry_ok_def key_index_own)
qed

text \<open>
  Claim C3. Over a cache consistent with the reader, a block \<open>(b0, b1, b2)\<close> with
  \<open>b0 \<ge> file_count\<close>, or \<open>b1 \<noteq> 0\<close>, or \<open>b2 \<noteq> 0\<close> makes \<open>read_block\<close> raise
  IndexError, with or without a sub-selector; no data is returned and the cache is
  left as it was.
\<close>

theorem read_block_out_of_range:
  assumes "cache_ok rd r c"
    and "int (length (files (seq r))) \<le> b0 \<or> b1 \<noteq> 0 \<or> b2 \<noteq> 0"
  shows "read_block rd gi r [b0, b1, b2] sub_selector c = (Inl IndexError, c)"
proof (cases "b1 \<noteq> 0 \<or> b2 \<noteq> 0")
  case True
  then show ?thesis
    by (auto simp: read_block_def)
next
  case False
  with assms(2) have b0: "int (length (files (seq r))) \<le> b0" and z: "b1 = 0" "b2 = 0"
    by simp_all
  from with_object_cache_failure [OF assms(1) asarray_out_of_range [OF b0]]
  have "read rd gi r (PSlice (Some b0) (Some (b0 + 1)) None) c = (Inl IndexError, c)"
    by (simp add: stack_range_def py_range_unit as_array_def)
  with z show ?thesis
    by (simp add: read_block_def)
qed

lemma demo_reader_simps:
  "files (seq demo_reader) = demo_files"
  "length demo_files = 3"
  by (simp_all add: demo_reader_def demo_files_def)

text \<open>
  On the example sequence of three files and an empty cache, the blocks \<open>(3, 0, 0)\<close>
  and \<open>(0, 1, 0)\<close> raise IndexError.
\<close>

theorem read_block_out_of_range_witness:
  "cache_ok demo_imread demo_reader (empty_cache 8)
   \<and> int (length (files (seq demo_reader))) \<le> 3
   \<and> read_block demo_imread demo_getitem demo_reader [3, 0, 0] None (empty_cache 8)
       = (Inl IndexError, empty_cache 8)
   \<and> read_block demo_imread demo_getitem demo_reader [0, 1, 0] None (empty_cache 8)
       = (Inl IndexError, empty_cache 8)"
proof -
  have ok: "cache_ok demo_imread demo_reader (empty_cache 8)"
    by (rule cache_ok_empty)
  have n: "int (length (files (seq demo_reader))) \<le> 3"
    by (simp add: demo_reader_simps)
  from read_block_out_of_range [OF ok, of 3 0 0 demo_getitem None]
       read_block_out_of_range [OF ok, of 0 1 0 demo_getitem None] ok n
  show ?thesis
    by simp
qed

lemma read_int_decode:
  assumes "cache_ok rd r c"
  shows "fst (read rd gi r (PInt i) c) =
           (case asarray rd (seq r) (Some i) of Inl e \<Rightarrow> Inl e | Inr a \<Rightarrow> Inr (RArray a))
         \<and> cache_ok rd r (snd (read rd gi r (PInt i) c))"
proof -
  obtain res c1 where w:
    "with_object_cache (cache_key r @ [KInt i]) (safe_asarray rd (seq r) (Some i)) c = (res, c1)"
    by (cases "with_object_cache (cache_key r @ [KInt i]) (safe_asarray rd (seq r) (Some i)) c")
  with cached_frame [OF assms, of i]
  have "res = asarray rd (seq r) (Some i)" "cache_ok rd r c1"
    by simp_all
  with w show ?thesis
    by (cases "asarray rd (seq r) (Some i)") (simp_all add: as_array_def)
qed

lemma all_below_3: "(\<forall>d<(3::nat). P d) \<longleftrightarrow> P 0 \<and> P 1 \<and> P 2"
proof
  assume "\<forall>d<3. P d"
  then show "P 0 \<and> P 1 \<and> P 2"
    by simp
next
  assume a: "P 0 \<and> P 1 \<and> P 2"
  show "\<forall>d<3. P d"
  proof (intro allI impI)
    fix d :: nat
    assume "d < 3"
    then have "d = 0 \<or> d = 1 \<or> d = 2"
      by presburger
    with a show "P d"
      by blast
  qed
qed

text \<open>
  Claim C9, amended. Every macrostructure that \<open>macrostructure()\<close> returns has the
  shape \<open>(file_count, *frame.shape)\<close> for the frame of file 0 and the three tuples of
  chunks \<open>((1,) * file_count, (shape[1],), (shape[2],))\<close>, and on each of the three
  chunked axes the chunks sum to the extent of the shape. When the frame has a height
  and a width and no further axis, the shape is \<open>(file_count, height, width)\<close>, the
  chunks are \<open>((1,) * file_count, (height,), (width,))\<close>, and the chunks of every axis
  of the shape sum to its extent.
\<close>

theorem macrostructure_chunks_sum:
  assumes "macrostructure rd gi r c = (Inr ms, c1)"
  shows "\<exists>frame.
           fst (read rd gi r (PInt 0) c) = Inr (RArray frame)
           \<and> ms_shape ms = length (files (seq r)) # shape frame
           \<and> ms_chunks ms = [replicate (length (files (seq r))) 1, [ms_shape ms ! 1], [ms_shape ms ! 2]]
           \<and> length (ms_chunks ms) = 3
           \<and> sum_list (ms_chunks ms ! 0) = ms_shape ms ! 0
           \<and> sum_list (ms_chunks ms ! 1) = ms_shape ms ! 1
           \<and> sum_list (ms_chunks ms ! 2) = ms_shape ms ! 2
           \<and> (length (shape frame) = 2 \<longrightarrow>
                (\<exists>h w. shape frame = [h, w]
                   \<and> ms_shape ms = [length (files (seq r)), h, w]
                   \<and> ms_chunks ms = [replicate (length (files (seq r))) 1, [h], [w]]
                   \<and> length (ms_chunks ms) = length (ms_shape ms)
                   \<and> (\<forall>d < length (ms_shape ms). sum_list (ms_chunks ms ! d) = ms_shape ms ! d)))"
proof -
  from assms obtain frame where
    rd0: "read rd gi r (PInt 0) c = (Inr (RArray frame), c1)"
    and ms: "ms = \<lparr>ms_shape = length (files (seq r)) # shape frame,
                   ms_chunks = [replicate (length (files (seq r))) 1,
                                [(length (files (seq r)) # shape frame) ! 1],
                                [(length (files (seq r)) # shape frame) ! 2]]\<rparr>"
    by (auto simp: macrostructure_def Let_def split: prod.splits sum.splits pyval.splits if_splits)
  have chunks: "ms_chunks ms = [replicate (length (files (seq r))) 1, [ms_shape ms ! 1], [ms_shape ms ! 2]]"
    by (simp add: ms)
  have sums: "sum_list (ms_chunks ms ! 0) = ms_shape ms ! 0"
    "sum_list (ms_chunks ms ! 1) = ms_shape ms ! 1"
    "sum_list (ms_chunks ms ! 2) = ms_shape ms ! 2"
    by (simp_all add: ms sum_list_replicate)
  have flat: "\<exists>h w. shape frame = [h, w]
                   \<and> ms_shape ms = [length (files (seq r)), h, w]
                   \<and> ms_chunks ms = [replicate (length (files (seq r))) 1, [h], [w]]
                   \<and> length (ms_chunks ms) = length (ms_shape ms)
                   \<and> (\<forall>d < length (ms_shape ms). sum_list (ms_chunks ms ! d) = ms_shape ms ! d)"
    if two: "length (shape frame) = 2"
  proof -
    from two obtain h w where hw: "shape frame = [h, w]"
      by (cases "shape frame"; cases "tl (shape frame)") auto
    with ms have l: "length (ms_shape ms) = 3"
      by simp
    from sums have "\<forall>d < length (ms_shape ms). sum_list (ms_chunks ms ! d) = ms_shape ms ! d"
      unfolding l all_below_3 by simp
    with hw ms show ?thesis
      by simp
  qed
  have len: "length (ms_chunks ms) = 3"
    by (simp add: ms)
  have shp: "ms_shape ms = length (files (seq r)) # shape frame"
    by (simp add: ms)
  from rd0 have whole: "fst (read rd gi r (PInt 0) c) = Inr (RArray frame)"
    by simp
  from whole shp chunks len sums flat show ?thesis
    by blast
qed

text \<open>
  The example sequence has the shape \<open>(3, 1, 2)\<close> and the chunks
  \<open>((1, 1, 1), (1,), (2,))\<close>.
\<close>

theorem macrostructure_chunks_sum_witness:
  "macrostructure demo_imread demo_getitem demo_reader (empty_cache 8)
     = (Inr demo_structure,
        snd (read demo_imread demo_getitem demo_reader (PInt 0) (empty_cache 8)))
   \<and> fst (read demo_imread demo_getitem demo_reader (PInt 0) (empty_cache 8))
       = Inr (RArray (NDArray [1, 2] [10, 11]))
   \<and> length (shape (NDArray [1, 2] [10, 11])) = 2
   \<and> sum_list (ms_chunks demo_structure ! 0) = ms_shape demo_structure ! 0
   \<and> sum_list (ms_chunks demo_structure ! 1) = ms_shape demo_structure ! 1
   \<and> sum_list (ms_chunks demo_structure ! 2) = ms_shape demo_structure ! 2
   \<and> length (ms_chunks demo_structure) = length (ms_shape demo_structure)"
proof -
  have f: "fst (read demo_imread demo_getitem demo_reader (PInt 0) (empty_cache 8))
             = Inr (RArray (NDArray [1, 2] [10, 11]))"
    by (simp add: with_object_cache_def empty_cache_def safe_asarray_eq asarray_def
          list_getitem_def demo_reader_simps demo_files_def demo_imread_def ustr_def as_array_def)
  have m: "macrostructure demo_imread demo_getitem demo_reader (empty_cache 8)
     = (Inr demo_structure,
        snd (read demo_imread demo_getitem demo_reader (PInt 0) (empty_cache 8)))"
    by (simp add: macrostructure_def with_object_cache_def empty_cache_def safe_asarray_eq
          asarray_def list_getitem_def demo_reader_simps demo_files_def demo_imread_def ustr_def
          as_array_def numeral_3_eq_3 demo_structure_def)
  from macrostructure_chunks_sum [OF m] f
  have "sum_list (ms_chunks demo_structure ! 0) = ms_shape demo_structure ! 0"
    "sum_list (ms_chunks demo_structure ! 1) = ms_shape demo_structure ! 1"
    "sum_list (ms_chunks demo_structure ! 2) = ms_shape demo_structure ! 2"
    "length (ms_chunks demo_structure) = length (ms_shape demo_structure)"
    by auto
  with m f show ?thesis
    by simp
qed

text \<open>
  Claim C9 as stated fails for frames with a third axis: on the sequence of two
  colour files \<open>macrostructure()\<close> returns the shape \<open>(2, 2, 2, 3)\<close> with the chunks
  \<open>((1, 1), (2,), (2,))\<close>. The shape has four axes where the claim has
  \<open>(file_count, height, width)\<close>, and its last axis has no tuple of chunks.
\<close>

theorem macrostructure_colour_frames_counterexample:
  "fst (macrostructure rgb_imread demo_getitem rgb_reader (empty_cache 8)) = Inr rgb_structure
   \<and> ms_shape rgb_structure = [2, 2, 2, 3]
   \<and> ms_chunks rgb_structure = [[1, 1], [2], [2]]
   \<and> length (ms_shape rgb_structure) = 4
   \<and> length (ms_chunks rgb_structure) = 3"
  by (simp add: macrostructure_def with_object_cache_def empty_cache_def safe_asarray_eq
        asarray_def list_getitem_def rgb_reader_def rgb_files_def rgb_imread_def ustr_def
        as_array_def numeral_2_eq_2 rgb_structure_def)

section \<open>What \<open>read\<close> and \<open>read_block\<close> return\<close>

lemma decode_indices_frames:
  assumes "\<forall>j\<in>set indices. 0 \<le> j \<and> j < int (length (files sq)) \<and> rd (files sq ! nat j) = Inr (frame j)"
  shows "decode_indices rd sq indices = Inr (map frame indices)"
  using assms by (induction indices) (simp_all add: asarray_in_range)

lemma numpy_stack_uniform:
  assumes "as \<noteq> []" and "\<forall>a\<in>set as. shape a = shp"
  shows "numpy_stack as = Inr (NDArray (length as # shp) (concat (map elems as)))"
  using assms by (cases as) (auto simp: numpy_stack_def list_all_iff)

text \<open>
  The list of \<open>py_range\<close> for a positive step holds the integers from \<open>start\<close>
  below \<open>stop\<close> that \<open>step\<close> reaches, and it is ascending.
\<close>

lemma py_range_members_up:
  assumes "0 < step" and "py_range start stop step = Inr xs"
  shows "set xs = {j. start \<le> j \<and> j < stop \<and> (j - start) mod step = 0}"
proof (cases "start < stop")
  case False
  with assms show ?thesis
    by (auto simp: py_range_def)
next
  case True
  let ?m = "nat (1 + (stop - 1 - start) div step)"
  from assms True have xs: "xs = map (\<lambda>k. start + int k * step) [0..<?m]"
    by (auto simp: py_range_def)
  show ?thesis
  proof (intro set_eqI iffI)
    fix j assume "j \<in> set xs"
    then obtain k where k: "k < ?m" "j = start + int k * step"
      unfolding xs by auto
    from k(1) have "int k \<le> (stop - 1 - start) div step"
      by linarith
    then have "int k * step \<le> (stop - 1 - start) div step * step"
      using assms(1) by (simp add: mult_right_mono)
    also have "\<dots> \<le> stop - 1 - start"
      using assms(1) by (metis div_mult_mod_eq le_add_same_cancel1 pos_mod_sign)
    finally show "j \<in> {j. start \<le> j \<and> j < stop \<and> (j - start) mod step = 0}"
      using k(2) assms(1) by simp
  next
    fix j assume "j \<in> {j. start \<le> j \<and> j < stop \<and> (j - start) mod step = 0}"
    then have j: "start \<le> j" "j < stop" "(j - start) mod step = 0"
      by simp_all
    define k where "k = nat ((j - start) div step)"
    from j(1) assms(1) have k0: "0 \<le> (j - start) div step"
      by (simp add: pos_imp_zdiv_nonneg_iff)
    from j(3) have js: "j = start + int k * step"
      using k0 by (simp add: k_def mod_eq_0_iff_dvd)
    have "(j - start) div step \<le> (stop - 1 - start) div step"
      using j(2) assms(1) by (intro zdiv_mono1) simp_all
    with k0 have "k < ?m"
      by (simp add: k_def)
    with js show "j \<in> set xs"
      unfolding xs by auto
  qed
qed

lemma py_range_ascending:
  assumes "py_range start stop step = Inr indices" and "0 < step"
  shows "sorted_wrt (<) indices"
proof -
  have "sorted_wrt (\<lambda>x y. start + int x * step < start + int y * step) [0..<m]" for m
    using assms(2) by (intro sorted_wrt_mono_rel [OF _ sorted_wrt_upt]) simp
  with assms show ?thesis
    by (auto simp: py_range_def sorted_wrt_map split: if_splits)
qed

text \<open>For a negative step the list runs down from \<open>start\<close> to above \<open>stop\<close>.\<close>

lemma py_range_members_down:
  assumes "step < 0" and "py_range start stop step = Inr xs"
  shows "set xs = {j. stop < j \<and> j \<le> start \<and> (start - j) mod (- step) = 0}"
proof (cases "stop < start")
  case False
  with assms show ?thesis
    by (auto simp: py_range_def)
next
  case True
  let ?s = "- step"
  have s: "0 < ?s"
    using assms(1) by simp
  let ?m = "nat (1 + (start - 1 - stop) div ?s)"
  from assms True have xs: "xs = map (\<lambda>k. start + int k * step) [0..<?m]"
    by (auto simp: py_range_def)
  show ?thesis
  proof (intro set_eqI iffI)
    fix j assume "j \<in> set xs"
    then obtain k where k: "k < ?m" "j = start - int k * ?s"
      unfolding xs by auto
    from k(1) have "int k \<le> (start - 1 - stop) div ?s"
      by linarith
    then have "int k * ?s \<le> (start - 1 - stop) div ?s * ?s"
      using s by (simp only: mult_right_mono less_imp_le)
    also have "\<dots> \<le> start - 1 - stop"
      using s by (metis div_mult_mod_eq le_add_same_cancel1 pos_mod_sign)
    finally have "stop < j"
      using k(2) by linarith
    moreover have "0 \<le> int k * ?s"
      using s by (intro mult_nonneg_nonneg) simp_all
    then have "j \<le> start"
      using k(2) by linarith
    moreover have "(start - j) mod ?s = 0"
      using k(2) by simp
    ultimately show "j \<in> {j. stop < j \<and> j \<le> start \<and> (start - j) mod ?s = 0}"
      by simp
  next
    fix j assume "j \<in> {j. stop < j \<and> j \<le> start \<and> (start - j) mod ?s = 0}"
    then have j: "stop < j" "j \<le> start" "(start - j) mod ?s = 0"
      by simp_all
    define k where "k = nat ((start - j) div ?s)"
    from j(2) s have k0: "0 \<le> (start - j) div ?s"
      by (simp add: pos_imp_zdiv_nonneg_iff)
    have "(start - j) div ?s * ?s + (start - j) mod ?s = start - j"
      by (rule div_mult_mod_eq)
    with j(3) have "(start - j) div ?s * ?s = start - j"
      by (simp only: add_0_right)
    moreover from k0 have "int k = (start - j) div ?s"
      by (simp only: k_def int_nat_eq if_True)
    ultimately have "start - j = int k * ?s"
      by (simp only:)
    then have js: "j = start + int k * step"
      by simp
    have "(start - j) div ?s \<le> (start - 1 - stop) div ?s"
      using j(1) s by (intro zdiv_mono1) simp_all
    with k0 have "k < ?m"
      by (simp add: k_def)
    with js show "j \<in> set xs"
      unfolding xs by auto
  qed
qed

lemma py_range_descending:
  assumes "py_range start stop step = Inr indices" and "step < 0"
  shows "sorted_wrt (>) indices"
proof -
  have "sorted_wrt (\<lambda>x y. start + int x * step > start + int y * step) [0..<m]" for m
    using assms(2) by (intro sorted_wrt_mono_rel [OF _ sorted_wrt_upt]) simp
  with assms show ?thesis
    by (auto simp: py_range_def sorted_wrt_map split: if_splits)
qed

text \<open>
  Claim C6, amended. Over a cache consistent with the reader: \<open>read(i)\<close> for
  \<open>0 \<le> i < n\<close> returns the decode of the file at index \<open>i\<close> as it is, with no axis
  for the files; \<open>read\<close> with an axis-0 range, \<open>start\<close> defaulting to 0 and \<open>step\<close>
  to 1, whose \<open>range(start, stop, step)\<close> is not empty and holds indices of files that
  decode to frames of one shape, returns those frames stacked along a new first axis
  in the order in which \<open>range(start, stop, step)\<close> yields them: ascending index
  order for a positive step, descending for a negative one.
\<close>

theorem read_index_and_range:
  assumes "cache_ok rd r c"
  shows "(0 \<le> i \<and> i < int (length (files (seq r))) \<and> rd (files (seq r) ! nat i) = Inr a
            \<longrightarrow> fst (read rd gi r (PInt i) c) = Inr (RArray a))
         \<and> (py_range (case start of None \<Rightarrow> 0 | Some s \<Rightarrow> s) stop
                      (case step of None \<Rightarrow> 1 | Some s \<Rightarrow> s) = Inr indices
             \<and> indices \<noteq> []
             \<and> (\<forall>j\<in>set indices. 0 \<le> j \<and> j < int (length (files (seq r)))
                    \<and> rd (files (seq r) ! nat j) = Inr (frame j) \<and> shape (frame j) = shp)
            \<longrightarrow> fst (read rd gi r (PSlice start (Some stop) step) c)
                  = Inr (RArray (NDArray (length indices # shp)
                                         (concat (map (\<lambda>j. elems (frame j)) indices))))
                \<and> (0 < (case step of None \<Rightarrow> 1 | Some s \<Rightarrow> s) \<longrightarrow> sorted_wrt (<) indices)
                \<and> ((case step of None \<Rightarrow> 1 | Some s \<Rightarrow> s) < 0 \<longrightarrow> sorted_wrt (>) indices))"
proof (intro conjI impI)
  assume "0 \<le> i \<and> i < int (length (files (seq r))) \<and> rd (files (seq r) ! nat i) = Inr a"
  then have "asarray rd (seq r) (Some i) = Inr a"
    by (simp add: asarray_in_range)
  with read_int_decode [OF assms, of gi i] show "fst (read rd gi r (PInt i) c) = Inr (RArray a)"
    by simp
next
  let ?s0 = "case start of None \<Rightarrow> 0 | Some s \<Rightarrow> s"
  let ?st = "case step of None \<Rightarrow> 1 | Some s \<Rightarrow> s"
  assume h: "py_range ?s0 stop ?st = Inr indices \<and> indices \<noteq> []
             \<and> (\<forall>j\<in>set indices. 0 \<le> j \<and> j < int (length (files (seq r)))
                    \<and> rd (files (seq r) ! nat j) = Inr (frame j) \<and> shape (frame j) = shp)"
  then have d: "decode_indices rd (seq r) indices = Inr (map frame indices)"
    by (intro decode_indices_frames) blast
  from h have "numpy_stack (map frame indices)
                 = Inr (NDArray (length (map frame indices) # shp)
                                (concat (map elems (map frame indices))))"
    by (intro numpy_stack_uniform) auto
  then have s: "numpy_stack (map frame indices)
                 = Inr (NDArray (length indices # shp) (concat (map (\<lambda>j. elems (frame j)) indices)))"
    by (simp add: o_def)
  from stack_range_decode [OF assms, of start "Some stop" step] h d s
  have "fst (stack_range rd r start (Some stop) step c)
          = Inr (NDArray (length indices # shp) (concat (map (\<lambda>j. elems (frame j)) indices)))"
    by simp
  then show "fst (read rd gi r (PSlice start (Some stop) step) c)
                  = Inr (RArray (NDArray (length indices # shp)
                                         (concat (map (\<lambda>j. elems (frame j)) indices))))"
    by (cases "stack_range rd r start (Some stop) step c") (simp add: as_array_def)
  from h show "sorted_wrt (<) indices" if "0 < ?st"
    using that py_range_ascending by blast
  from h show "sorted_wrt (>) indices" if "?st < 0"
    using that py_range_descending by blast
qed

text \<open>
  On the example sequence: \<open>read(1)\<close> is the frame of the second file, and
  \<open>read(slice(None, 3))\<close> stacks the frames of files 0, 1, 2 in that order.
\<close>

theorem read_index_and_range_witness:
  "cache_ok demo_imread demo_reader (empty_cache 8)
   \<and> fst (read demo_imread demo_getitem demo_reader (PInt 1) (empty_cache 8))
       = Inr (RArray (NDArray [1, 2] [20, 21]))
   \<and> py_range 0 3 1 = Inr [0, 1, 2]
   \<and> fst (read demo_imread demo_getitem demo_reader (PSlice None (Some 3) None) (empty_cache 8))
       = Inr (RArray (NDArray [3, 1, 2] [10, 11, 20, 21, 30, 31]))
   \<and> sorted_wrt (<) [0, 1, 2 :: int]"
proof -
  define frame :: "int \<Rightarrow> ndarray" where
    "frame j = (if j = 0 then NDArray [1, 2] [10, 11]
                else if j = 1 then NDArray [1, 2] [20, 21] else NDArray [1, 2] [30, 31])" for j
  have ok: "cache_ok demo_imread demo_reader (empty_cache 8)"
    by (rule cache_ok_empty)
  have rng: "py_range 0 3 1 = Inr [0, 1, 2]"
    by (simp add: py_range_def upt_rec)
  have one: "0 \<le> (1::int) \<and> 1 < int (length (files (seq demo_reader)))
             \<and> demo_imread (files (seq demo_reader) ! nat 1) = Inr (NDArray [1, 2] [20, 21])"
    by (simp add: demo_reader_simps demo_files_def demo_imread_def ustr_def)
  have all: "py_range (case None of None \<Rightarrow> 0 | Some s \<Rightarrow> s) 3
                      (case None of None \<Rightarrow> 1 | Some s \<Rightarrow> s) = Inr [0, 1, 2]
             \<and> [0, 1, 2] \<noteq> ([] :: int list)
             \<and> (\<forall>j\<in>set [0, 1, 2]. 0 \<le> j \<and> j < int (length (files (seq demo_reader)))
                    \<and> demo_imread (files (seq demo_reader) ! nat j) = Inr (frame j)
                    \<and> shape (frame j) = [1, 2])"
    using rng by (simp add: demo_reader_simps demo_files_def demo_imread_def ustr_def frame_def)
  from read_index_and_range [OF ok, where i = 1 and a = "NDArray [1, 2] [20, 21]"
         and start = None and stop = 3 and step = None and indices = "[0, 1, 2]"
         and frame = frame and shp = "[1, 2]" and gi = demo_getitem] one all
  have "fst (read demo_imread demo_getitem demo_reader (PInt 1) (empty_cache 8))
          = Inr (RArray (NDArray [1, 2] [20, 21]))"
    and "fst (read demo_imread demo_getitem demo_reader (PSlice None (Some 3) None) (empty_cache 8))
          = Inr (RArray (NDArray (length [0, 1, 2 :: int] # [1, 2])
                                 (concat (map (\<lambda>j. elems (frame j)) [0, 1, 2]))))"
    and "sorted_wrt (<) [0, 1, 2 :: int]"
    by simp_all
  with ok rng show ?thesis
    by (simp add: frame_def)
qed

text \<open>
  Claim C6 as stated fails for a negative step: \<open>read(slice(2, 0, -1))\<close> on the
  example sequence stacks the frame of file 2 before the frame of file 1, which is not
  ascending index order.
\<close>

theorem read_descending_range_counterexample:
  "py_range 2 0 (- 1) = Inr [2, 1]
   \<and> fst (read demo_imread demo_getitem demo_reader (PSlice (Some 2) (Some 0) (Some (- 1)))
            (empty_cache 8))
       = Inr (RArray (NDArray [2, 1, 2] [30, 31, 20, 21]))
   \<and> \<not> sorted_wrt (<) [2, 1 :: int]"
proof -
  have rng: "py_range 2 0 (- 1) = Inr [2, 1]"
    by (simp add: py_range_def upt_rec)
  have "fst (read demo_imread demo_getitem demo_reader (PSlice (Some 2) (Some 0) (Some (- 1)))
            (empty_cache 8))
       = Inr (RArray (NDArray [2, 1, 2] [30, 31, 20, 21]))"
    by (simp add: stack_range_def rng with_object_cache_def empty_cache_def safe_asarray_eq
          asarray_def list_getitem_def demo_reader_simps demo_files_def demo_imread_def ustr_def
          as_array_def numpy_stack_def)
  with rng show ?thesis
    by simp
qed

lemma concat_slab:
  assumes "\<forall>xs\<in>set xss. length xs = m" and "k < length xss"
  shows "take m (drop (k * m) (concat xss)) = xss ! k"
  using assms
proof (induction xss arbitrary: k)
  case Nil
  then show ?case by simp
next
  case (Cons xs xss)
  show ?case
  proof (cases k)
    case 0
    with Cons.prems show ?thesis by simp
  next
    case (Suc j)
    with Cons.prems have "take m (drop (j * m) (concat xss)) = xss ! j"
      by (intro Cons.IH) auto
    with Suc Cons.prems show ?thesis
      by (simp add: add.commute)
  qed
qed

lemma read_whole_decode:
  assumes "cache_ok rd r c"
  shows "fst (read rd gi r PNone c) =
           (case asarray rd (seq r) None of Inl e \<Rightarrow> Inl e | Inr a \<Rightarrow> Inr (RArray a))"
proof -
  obtain res c1 where w:
    "with_object_cache (cache_key r) (safe_asarray rd (seq r) None) c = (res, c1)"
    by (cases "with_object_cache (cache_key r) (safe_asarray rd (seq r) None) c")
  with cached_whole [OF assms] have "res = asarray rd (seq r) None"
    by simp
  with w show ?thesis
    by (cases "asarray rd (seq r) None") (simp_all add: as_array_def)
qed

text \<open>
  The whole-sequence decode of a sequence whose frames all have the shape of the
  first: every assignment to the buffer is a plain copy, and the buffer holds the
  frames one after the other.
\<close>

lemma those_map_Some: "those (map (\<lambda>k. Some (f k)) xs) = Some (map f xs)"
  by (induction xs) simp_all

lemma concat_chunks:
  "length es = t * m \<Longrightarrow> concat (map (\<lambda>k. take m (drop (k * m) es)) [0..<t]) = es"
proof (induction t arbitrary: es)
  case 0
  then show ?case by simp
next
  case (Suc t)
  have "concat (map (\<lambda>k. take m (drop (k * m) es)) [0..<Suc t])
        = concat (map (\<lambda>k. take m (drop (k * m) es)) [0..<t]) @ take m (drop (t * m) es)"
    by simp
  also have "map (\<lambda>k. take m (drop (k * m) es)) [0..<t]
             = map (\<lambda>k. take m (drop (k * m) (take (t * m) es))) [0..<t]"
  proof (rule map_cong [OF refl])
    fix k assume "k \<in> set [0..<t]"
    then have "k * m + m \<le> t * m"
      by (metis Suc_leI atLeastLessThan_iff mult_Suc mult_le_mono1 set_upt add.commute)
    then show "take m (drop (k * m) es) = take m (drop (k * m) (take (t * m) es))"
      by (simp add: drop_take)
  qed
  also have "concat \<dots> = take (t * m) es"
    using Suc.prems by (intro Suc.IH) simp
  also have "take m (drop (t * m) es) = drop (t * m) es"
    using Suc.prems by simp
  finally show ?case
    by simp
qed

lemma broadcast_same:
  "length es = prod_list shp \<Longrightarrow> broadcast_elems shp shp es = Some es"
proof (induction shp arbitrary: es)
  case Nil
  then show ?case by simp
next
  case (Cons t ts)
  have "broadcast_elems ts ts (take (prod_list ts) (drop (k * prod_list ts) es))
          = Some (take (prod_list ts) (drop (k * prod_list ts) es))" if "k < t" for k
  proof (rule Cons.IH)
    from that have "k * prod_list ts + prod_list ts \<le> t * prod_list ts"
      by (metis Suc_leI mult_Suc mult_le_mono1 add.commute)
    with Cons.prems show "length (take (prod_list ts) (drop (k * prod_list ts) es)) = prod_list ts"
      by simp
  qed
  then have eq: "map (\<lambda>k. broadcast_elems ts ts (take (prod_list ts) (drop (k * prod_list ts) es))) [0..<t]
             = map (\<lambda>k. Some (take (prod_list ts) (drop (k * prod_list ts) es))) [0..<t]"
    by simp
  from Cons.prems have "concat (map (\<lambda>k. take (prod_list ts) (drop (k * prod_list ts) es)) [0..<t]) = es"
    by (intro concat_chunks) simp
  then show ?case
    by (simp only: broadcast_elems.simps eq those_map_Some option.map simp_thms if_True)
qed

lemma strip_unit_axes_same: "strip_unit_axes (length shp) shp = shp"
  by (cases shp) simp_all

lemma assign_frame_same:
  assumes "shape a = shp" and "length (elems a) = prod_list shp"
  shows "assign_frame shp a = Inr (elems a)"
  using assms by (simp add: assign_frame_def strip_unit_axes_same broadcast_same)

lemma fill_frames_uniform:
  assumes "list_all (\<lambda>f. frame_ok shp (rd f)) fs"
  shows "\<exists>as. fill_frames rd shp fs = Inr (map elems as) \<and> length as = length fs
              \<and> (\<forall>k<length fs. rd (fs ! k) = Inr (as ! k))
              \<and> (\<forall>a\<in>set as. shape a = shp \<and> length (elems a) = prod_list shp)"
  using assms
proof (induction fs)
  case Nil
  then show ?case by simp
next
  case (Cons f fs)
  from Cons.prems obtain a where a: "rd f = Inr a" "shape a = shp" "length (elems a) = prod_list shp"
    by (auto simp: frame_ok_def split: sum.splits)
  from Cons obtain as where as: "fill_frames rd shp fs = Inr (map elems as)" "length as = length fs"
    "\<forall>k<length fs. rd (fs ! k) = Inr (as ! k)"
    "\<forall>a\<in>set as. shape a = shp \<and> length (elems a) = prod_list shp"
    by auto
  have nth: "\<forall>k<length (f # fs). rd ((f # fs) ! k) = Inr ((a # as) ! k)"
    using a(1) as(3) by (auto simp: nth_Cons split: nat.splits)
  have "fill_frames rd shp (f # fs) = Inr (map elems (a # as))"
    by (simp add: a(1) assign_frame_same [OF a(2,3)] as(1))
  with nth a as(2,4) show ?case
    by (intro exI [of _ "a # as"]) simp
qed

lemma asarray_whole_uniform:
  assumes "uniform_frames rd sq shp" and "0 < prod_list shp" and "files sq \<noteq> []"
  shows "\<exists>as. asarray rd sq None = Inr (NDArray (length (files sq) # shp) (concat (map elems as)))
              \<and> length as = length (files sq)
              \<and> (\<forall>k<length (files sq). rd (files sq ! k) = Inr (as ! k))
              \<and> (\<forall>a\<in>set as. shape a = shp \<and> length (elems a) = prod_list shp)"
proof -
  from assms(1) obtain as where as: "fill_frames rd shp (files sq) = Inr (map elems as)"
    "length as = length (files sq)"
    "\<forall>k<length (files sq). rd (files sq ! k) = Inr (as ! k)"
    "\<forall>a\<in>set as. shape a = shp \<and> length (elems a) = prod_list shp"
    unfolding uniform_frames_def using fill_frames_uniform by blast
  from assms(3) have pos: "0 < length (files sq)"
    by simp
  with as(3) have first: "rd (files sq ! 0) = Inr (as ! 0)"
    by blast
  from pos as(2) have "as ! 0 \<in> set as"
    by simp
  with as(4) have sh: "shape (as ! 0) = shp"
    by blast
  from pos first sh assms(2) as(1)
  have "asarray rd sq None = Inr (NDArray (length (files sq) # shp) (concat (map elems as)))"
    by (simp add: asarray_def list_getitem_def)
  with as(2,3,4) show ?thesis
    by blast
qed

lemma demo_whole: "asarray demo_imread (seq demo_reader) None
                     = Inr (NDArray [3, 1, 2] [10, 11, 20, 21, 30, 31])"
  by (simp add: asarray_def list_getitem_def demo_reader_simps demo_files_def demo_imread_def
        assign_frame_same ustr_def)

text \<open>
  Claim C4, amended. Over a cache consistent with the reader, \<open>read_block\<close> at
  \<open>(b0, 0, 0)\<close> with \<open>0 \<le> b0 < file_count\<close> and no sub-selector decodes the file at
  \<open>b0\<close>. An error of that decode goes to the caller. Otherwise the result is the
  frame of the file under one more leading axis: its shape is \<open>(1, *frame.shape)\<close>,
  and it is what \<open>read\<close> returns for the slice from \<open>b0\<close> to \<open>b0 + 1\<close>. That shape is
  \<open>(chunks[0][b0], chunks[1][0], chunks[2][0])\<close> of the macrostructure, which is
  \<open>(1, height, width)\<close>, when the frame has the two axes \<open>(height, width)\<close> of the
  frame of file 0, from which the macrostructure takes them. When all files decode to
  frames of one shape, the result is the part of the whole array between the
  positions \<open>b0\<close> and \<open>b0 + 1\<close> of axis 0.
\<close>

theorem read_block_in_range:
  assumes ok: "cache_ok rd r c"
    and lo: "0 \<le> b0" and hi: "b0 < int (length (files (seq r)))"
  shows "(\<forall>e. rd (files (seq r) ! nat b0) = Inl e \<longrightarrow>
            read_block rd gi r [b0, 0, 0] None c = (Inl e, c))
         \<and> (\<forall>frame. rd (files (seq r) ! nat b0) = Inr frame \<longrightarrow>
              (\<exists>c1. read_block rd gi r [b0, 0, 0] None c
                       = (Inr (RArray (NDArray (1 # shape frame) (elems frame))), c1)
                  \<and> read rd gi r (PSlice (Some b0) (Some (b0 + 1)) None) c
                       = (Inr (RArray (NDArray (1 # shape frame) (elems frame))), c1))
              \<and> (\<forall>frame0 h w.
                    rd (files (seq r) ! 0) = Inr frame0 \<and> shape frame0 = [h, w] \<and> shape frame = [h, w]
                    \<longrightarrow> (\<exists>ms. fst (macrostructure rd gi r c) = Inr ms
                           \<and> 1 # shape frame
                               = [ms_chunks ms ! 0 ! nat b0, ms_chunks ms ! 1 ! 0, ms_chunks ms ! 2 ! 0]
                           \<and> 1 # shape frame = [1, h, w]))
              \<and> (\<forall>shp. uniform_frames rd (seq r) shp \<and> 0 < prod_list shp
                    \<longrightarrow> (\<exists>whole. fst (read rd gi r PNone c) = Inr (RArray whole)
                           \<and> NDArray (1 # shape frame) (elems frame)
                               = axis0_slice whole (nat b0) (nat b0 + 1))))"
proof (intro conjI allI impI)
  fix e
  assume "rd (files (seq r) ! nat b0) = Inl e"
  with lo hi have "asarray rd (seq r) (Some b0) = Inl e"
    by (simp add: asarray_in_range)
  from with_object_cache_failure [OF ok this]
  have "read rd gi r (PSlice (Some b0) (Some (b0 + 1)) None) c = (Inl e, c)"
    by (simp add: stack_range_def py_range_unit as_array_def)
  then show "read_block rd gi r [b0, 0, 0] None c = (Inl e, c)"
    by (simp add: read_block_def)
next
  fix frame
  assume fr: "rd (files (seq r) ! nat b0) = Inr frame"
  let ?a = "NDArray (1 # shape frame) (elems frame)"
  from fr lo hi have dec: "asarray rd (seq r) (Some b0) = Inr frame"
    by (simp add: asarray_in_range)
  have st: "numpy_stack [frame] = Inr ?a"
    by (simp add: numpy_stack_def)
  from stack_range_decode [OF ok, of "Some b0" "Some (b0 + 1)" None] dec st
  have "fst (stack_range rd r (Some b0) (Some (b0 + 1)) None c) = Inr ?a"
    by (simp add: py_range_unit)
  then obtain c1 where rr: "read rd gi r (PSlice (Some b0) (Some (b0 + 1)) None) c = (Inr (RArray ?a), c1)"
    by (cases "stack_range rd r (Some b0) (Some (b0 + 1)) None c") (simp add: as_array_def)
  then have rb: "read_block rd gi r [b0, 0, 0] None c = (Inr (RArray ?a), c1)"
    by (simp add: read_block_def)
  from rb rr show "\<exists>c1. read_block rd gi r [b0, 0, 0] None c = (Inr (RArray ?a), c1)
                       \<and> read rd gi r (PSlice (Some b0) (Some (b0 + 1)) None) c = (Inr (RArray ?a), c1)"
    by blast
next
  fix frame frame0 h w
  assume fr: "rd (files (seq r) ! nat b0) = Inr frame"
    and f0: "rd (files (seq r) ! 0) = Inr frame0 \<and> shape frame0 = [h, w] \<and> shape frame = [h, w]"
  let ?n = "length (files (seq r))"
  define ms where "ms = \<lparr>ms_shape = [?n, h, w], ms_chunks = [replicate ?n 1, [h], [w]]\<rparr>"
  from lo hi have k: "nat b0 < ?n"
    by linarith
  then have pos: "0 < ?n"
    by linarith
  from f0 pos have "asarray rd (seq r) (Some 0) = Inr frame0"
    by (simp add: asarray_in_range)
  with read_int_decode [OF ok, of gi 0]
  have "fst (read rd gi r (PInt 0) c) = Inr (RArray frame0)"
    by simp
  with f0 have mac: "fst (macrostructure rd gi r c) = Inr ms"
    by (cases "read rd gi r (PInt 0) c") (simp add: macrostructure_def ms_def)
  have "1 # shape frame = [ms_chunks ms ! 0 ! nat b0, ms_chunks ms ! 1 ! 0, ms_chunks ms ! 2 ! 0]"
    using k f0 by (simp add: ms_def)
  with mac f0 show "\<exists>ms. fst (macrostructure rd gi r c) = Inr ms
                           \<and> 1 # shape frame
                               = [ms_chunks ms ! 0 ! nat b0, ms_chunks ms ! 1 ! 0, ms_chunks ms ! 2 ! 0]
                           \<and> 1 # shape frame = [1, h, w]"
    by auto
next
  fix frame shp
  assume fr: "rd (files (seq r) ! nat b0) = Inr frame"
    and uf: "uniform_frames rd (seq r) shp \<and> 0 < prod_list shp"
  let ?n = "length (files (seq r))"
  from lo hi have k: "nat b0 < ?n"
    by linarith
  then have ne: "files (seq r) \<noteq> []"
    by auto
  from uf have u1: "uniform_frames rd (seq r) shp" and u2: "0 < prod_list shp"
    by simp_all
  from asarray_whole_uniform [OF u1 u2 ne] obtain as where
    whole: "asarray rd (seq r) None = Inr (NDArray (?n # shp) (concat (map elems as)))"
    and as: "length as = ?n" "\<forall>k<?n. rd (files (seq r) ! k) = Inr (as ! k)"
      "\<forall>a\<in>set as. shape a = shp \<and> length (elems a) = prod_list shp"
    by blast
  from as(2) k fr have same: "as ! nat b0 = frame"
    by auto
  from k as(1) have "as ! nat b0 \<in> set as"
    by simp
  with as(3) same have sh: "shape frame = shp"
    by blast
  from read_whole_decode [OF ok, of gi] whole
  have wh: "fst (read rd gi r PNone c) = Inr (RArray (NDArray (?n # shp) (concat (map elems as))))"
    by simp
  have "take (prod_list shp) (drop (nat b0 * prod_list shp) (concat (map elems as))) = map elems as ! nat b0"
    using as(1,3) k by (intro concat_slab) auto
  with same k as(1) have "take (prod_list shp) (drop (nat b0 * prod_list shp) (concat (map elems as))) = elems frame"
    by simp
  then have "NDArray (1 # shape frame) (elems frame)
               = axis0_slice (NDArray (?n # shp) (concat (map elems as))) (nat b0) (nat b0 + 1)"
    by (simp add: axis0_slice_def sh)
  with wh show "\<exists>whole. fst (read rd gi r PNone c) = Inr (RArray whole)
                  \<and> NDArray (1 # shape frame) (elems frame) = axis0_slice whole (nat b0) (nat b0 + 1)"
    by blast
qed

text \<open>
  On the example sequence the block \<open>(1, 0, 0)\<close> is the frame of the second file under
  one more axis; its shape is that of the chunks, and it is the second slab of the
  whole array.
\<close>

theorem read_block_in_range_witness:
  "cache_ok demo_imread demo_reader (empty_cache 8)
   \<and> (0::int) \<le> 1 \<and> 1 < int (length (files (seq demo_reader)))
   \<and> demo_imread (files (seq demo_reader) ! nat 1) = Inr (NDArray [1, 2] [20, 21])
   \<and> demo_imread (files (seq demo_reader) ! 0) = Inr (NDArray [1, 2] [10, 11])
   \<and> uniform_frames demo_imread (seq demo_reader) [1, 2]
   \<and> fst (read_block demo_imread demo_getitem demo_reader [1, 0, 0] None (empty_cache 8))
       = Inr (RArray (NDArray [1, 1, 2] [20, 21]))
   \<and> fst (macrostructure demo_imread demo_getitem demo_reader (empty_cache 8)) = Inr demo_structure
   \<and> [ms_chunks demo_structure ! 0 ! 1, ms_chunks demo_structure ! 1 ! 0,
       ms_chunks demo_structure ! 2 ! 0] = [1, 1, 2]
   \<and> fst (read demo_imread demo_getitem demo_reader PNone (empty_cache 8))
       = Inr (RArray (NDArray [3, 1, 2] [10, 11, 20, 21, 30, 31]))
   \<and> axis0_slice (NDArray [3, 1, 2] [10, 11, 20, 21, 30, 31]) 1 2 = NDArray [1, 1, 2] [20, 21]"
proof -
  have ok: "cache_ok demo_imread demo_reader (empty_cache 8)"
    by (rule cache_ok_empty)
  have hi: "1 < int (length (files (seq demo_reader)))"
    by (simp add: demo_reader_simps)
  have f1: "demo_imread (files (seq demo_reader) ! nat 1) = Inr (NDArray [1, 2] [20, 21])"
    and f0: "demo_imread (files (seq demo_reader) ! 0) = Inr (NDArray [1, 2] [10, 11])"
    by (simp_all add: demo_reader_simps demo_files_def demo_imread_def ustr_def)
  have uf: "uniform_frames demo_imread (seq demo_reader) [1, 2]"
    by (simp add: uniform_frames_def frame_ok_def demo_reader_simps demo_files_def demo_imread_def
          ustr_def)
  note inst = read_block_in_range [OF ok _ hi, of demo_getitem, simplified]
  from inst f1 have rb: "fst (read_block demo_imread demo_getitem demo_reader [1, 0, 0] None (empty_cache 8))
       = Inr (RArray (NDArray [1, 1, 2] [20, 21]))"
    by auto
  have mac: "fst (macrostructure demo_imread demo_getitem demo_reader (empty_cache 8)) = Inr demo_structure"
    by (simp add: macrostructure_def with_object_cache_def empty_cache_def safe_asarray_eq
          asarray_def list_getitem_def demo_reader_simps demo_files_def demo_imread_def
          as_array_def numeral_3_eq_3 demo_structure_def)
  have ch: "[ms_chunks demo_structure ! 0 ! 1, ms_chunks demo_structure ! 1 ! 0,
       ms_chunks demo_structure ! 2 ! 0] = [1, 1, 2]"
    by (simp add: demo_structure_def)
  have wh: "fst (read demo_imread demo_getitem demo_reader PNone (empty_cache 8))
          = Inr (RArray (NDArray [3, 1, 2] [10, 11, 20, 21, 30, 31]))"
    by (simp add: with_object_cache_def empty_cache_def safe_asarray_eq demo_whole as_array_def)
  have ax: "axis0_slice (NDArray [3, 1, 2] [10, 11, 20, 21, 30, 31]) 1 2 = NDArray [1, 1, 2] [20, 21]"
    by (simp add: axis0_slice_def)
  from ok hi f1 f0 uf rb mac ch wh ax show ?thesis
    by simp
qed

text \<open>
  Claim C4 as stated fails when the frame of the block is not of the height and
  width of the frame of file 0: on the sequence of two differing files the chunks
  give the block \<open>(1, 0, 0)\<close> the shape \<open>(1, 2, 2)\<close>, and \<open>read_block\<close> returns an
  array of the shape \<open>(1, 1, 2)\<close>.
\<close>

theorem read_block_differing_frames_counterexample:
  "fst (read_block mixed_imread demo_getitem mixed_reader [1, 0, 0] None (empty_cache 8))
     = Inr (RArray (NDArray [1, 1, 2] [5, 6]))
   \<and> fst (macrostructure mixed_imread demo_getitem mixed_reader (empty_cache 8)) = Inr mixed_structure
   \<and> [ms_chunks mixed_structure ! 0 ! 1, ms_chunks mixed_structure ! 1 ! 0,
       ms_chunks mixed_structure ! 2 ! 0] = [1, 2, 2]
   \<and> shape (NDArray [1, 1, 2] [5, 6]) \<noteq> [1, 2, 2]"
proof -
  have rng: "py_range 1 2 1 = Inr [1]"
    by (simp add: py_range_def)
  have rb: "fst (read_block mixed_imread demo_getitem mixed_reader [1, 0, 0] None (empty_cache 8))
     = Inr (RArray (NDArray [1, 1, 2] [5, 6]))"
    by (simp add: read_block_def stack_range_def rng with_object_cache_def empty_cache_def
          safe_asarray_eq asarray_def list_getitem_def mixed_reader_def mixed_files_def
          mixed_imread_def as_array_def numpy_stack_def ustr_def)
  have mac: "fst (macrostructure mixed_imread demo_getitem mixed_reader (empty_cache 8))
               = Inr mixed_structure"
    by (simp add: macrostructure_def with_object_cache_def empty_cache_def safe_asarray_eq
          asarray_def list_getitem_def mixed_reader_def mixed_files_def mixed_imread_def
          as_array_def numeral_2_eq_2 mixed_structure_def)
  from rb mac show ?thesis
    by (simp add: mixed_structure_def)
qed

section \<open>What the reads store in the cache\<close>

text \<open>
  One call of the cache: either nothing is stored (the key was in the cache, or the
  computation failed), or the key was not in the cache and the result of the
  computation is stored under it. The keys in the cache grow by that key at most.
\<close>

lemma with_object_cache_trace:
  assumes "with_object_cache k compute c = (res, c1)"
  shows "(stored c1 = stored c \<and> cached_keys c1 \<subseteq> cached_keys c
            \<and> (k \<in> cached_keys c \<or> (\<exists>e. res = Inl e)))
         \<or> (\<exists>v. compute = Inr v \<and> res = Inr v \<and> k \<notin> cached_keys c
                \<and> stored c1 = stored c @ [(k, v)]
                \<and> cached_keys c1 \<subseteq> insert k (cached_keys c))"
proof (cases "map_of (entries c) k")
  case None
  then have miss: "k \<notin> cached_keys c"
    by (simp add: cached_keys_def map_of_eq_None_iff)
  show ?thesis
  proof (cases compute)
    case (Inl e)
    with None assms show ?thesis
      by (auto simp: with_object_cache_def)
  next
    case (Inr v)
    have "fst ` set (take (capacity c) ((k, v) # entries c)) \<subseteq> insert k (fst ` set (entries c))"
      using set_take_subset [of "capacity c" "(k, v) # entries c"] by auto
    with None Inr assms miss show ?thesis
      by (auto simp: with_object_cache_def cached_keys_def)
  qed
next
  case (Some v)
  then have hit: "k \<in> cached_keys c"
    unfolding cached_keys_def by (metis map_of_eq_None_iff option.distinct(1))
  from Some assms have c1: "c1 = c\<lparr>entries := (k, v) # filter (\<lambda>kv. fst kv \<noteq> k) (entries c)\<rparr>"
    by (simp add: with_object_cache_def)
  have "fst ` set (filter (\<lambda>kv. fst kv \<noteq> k) (entries c)) \<subseteq> fst ` set (entries c)"
    by force
  with hit have "cached_keys c1 \<subseteq> cached_keys c"
    unfolding c1 cached_keys_def by simp
  moreover from c1 have "stored c1 = stored c"
    by simp
  ultimately show ?thesis
    using hit by blast
qed

lemma file_key_inject: "file_key r i = file_key r j \<longleftrightarrow> i = j"
  by (simp add: file_key_def)

text \<open>
  The comprehension of \<open>read\<close> over a list of indices stores, in the order of the
  list, the decode of an index under the key of that index, and nothing else. When
  it ends without an error, every index whose key was not in the cache before has
  been stored; when none of the keys was in the cache and no index comes twice, the
  indices stored are the whole list.
\<close>

lemma cached_frames_trace:
  "\<exists>js. stored (snd (cached_frames rd r indices c))
           = stored c @ map (\<lambda>i. (file_key r i, projr (asarray rd (seq r) (Some i)))) js
        \<and> (\<forall>i\<in>set js. asarray rd (seq r) (Some i) = Inr (projr (asarray rd (seq r) (Some i))))
        \<and> subseq js indices
        \<and> cached_keys (snd (cached_frames rd r indices c)) \<subseteq> cached_keys c \<union> file_key r ` set js
        \<and> ((\<exists>as. fst (cached_frames rd r indices c) = Inr as) \<longrightarrow>
              (\<forall>i\<in>set indices. i \<in> set js \<or> file_key r i \<in> cached_keys c)
              \<and> (distinct indices \<and> (\<forall>i\<in>set indices. file_key r i \<notin> cached_keys c)
                   \<longrightarrow> js = indices))"
proof (induction indices arbitrary: c)
  case Nil
  show ?case
    by (intro exI [of _ "[]"]) simp
next
  case (Cons i rest)
  let ?D = "\<lambda>i. projr (asarray rd (seq r) (Some i))"
  let ?P = "\<lambda>i. (file_key r i, ?D i)"
  obtain res c1 where w:
    "with_object_cache (file_key r i) (safe_asarray rd (seq r) (Some i)) c = (res, c1)"
    by (cases "with_object_cache (file_key r i) (safe_asarray rd (seq r) (Some i)) c")
  then have w': "with_object_cache (cache_key r @ [KInt i]) (safe_asarray rd (seq r) (Some i)) c = (res, c1)"
    by (simp add: file_key_def)
  from Cons.IH [of c1] obtain js2 where
    s2: "stored (snd (cached_frames rd r rest c1)) = stored c1 @ map ?P js2"
    and d2: "\<forall>i\<in>set js2. asarray rd (seq r) (Some i) = Inr (?D i)"
    and j2: "subseq js2 rest"
    and k2: "cached_keys (snd (cached_frames rd r rest c1)) \<subseteq> cached_keys c1 \<union> file_key r ` set js2"
    and ok2: "(\<exists>as. fst (cached_frames rd r rest c1) = Inr as) \<longrightarrow>
              (\<forall>i\<in>set rest. i \<in> set js2 \<or> file_key r i \<in> cached_keys c1)
              \<and> (distinct rest \<and> (\<forall>i\<in>set rest. file_key r i \<notin> cached_keys c1) \<longrightarrow> js2 = rest)"
    by blast
  from with_object_cache_trace [OF w]
  consider
    (quiet) "stored c1 = stored c" "cached_keys c1 \<subseteq> cached_keys c"
      "file_key r i \<in> cached_keys c \<or> (\<exists>e. res = Inl e)"
  | (fresh) v where "safe_asarray rd (seq r) (Some i) = Inr v" "res = Inr v"
      "file_key r i \<notin> cached_keys c" "stored c1 = stored c @ [(file_key r i, v)]"
      "cached_keys c1 \<subseteq> insert (file_key r i) (cached_keys c)"
    by blast
  then show ?case
  proof cases
    case quiet
    show ?thesis
    proof (cases res)
      case (Inl e)
      with w' have "cached_frames rd r (i # rest) c = (Inl e, c1)"
        by simp
      with quiet(1,2) show ?thesis
        by (intro exI [of _ "[]"]) auto
    next
      case (Inr a)
      with quiet(3) have hit: "file_key r i \<in> cached_keys c"
        by auto
      from w' Inr have sn: "snd (cached_frames rd r (i # rest) c) = snd (cached_frames rd r rest c1)"
        and fs: "(\<exists>as. fst (cached_frames rd r (i # rest) c) = Inr as)
                   \<longleftrightarrow> (\<exists>as. fst (cached_frames rd r rest c1) = Inr as)"
        by (auto split: prod.splits sum.splits)
      have a1: "stored (snd (cached_frames rd r (i # rest) c)) = stored c @ map ?P js2"
        unfolding sn s2 quiet(1) ..
      have a3: "subseq js2 (i # rest)"
        using j2 by auto
      have a4: "cached_keys (snd (cached_frames rd r (i # rest) c)) \<subseteq> cached_keys c \<union> file_key r ` set js2"
        unfolding sn using k2 quiet(2) by blast
      have a5: "(\<forall>j\<in>set (i # rest). j \<in> set js2 \<or> file_key r j \<in> cached_keys c)
              \<and> (distinct (i # rest) \<and> (\<forall>j\<in>set (i # rest). file_key r j \<notin> cached_keys c)
                   \<longrightarrow> js2 = i # rest)"
        if "\<exists>as. fst (cached_frames rd r (i # rest) c) = Inr as"
      proof -
        from that fs ok2 have "\<forall>j\<in>set rest. j \<in> set js2 \<or> file_key r j \<in> cached_keys c1"
          by blast
        with quiet(2) hit show ?thesis
          by auto
      qed
      from a1 d2 a3 a4 a5 show ?thesis
        by (intro exI [of _ js2]) blast
    qed
  next
    case fresh
    from fresh(1) have dec: "asarray rd (seq r) (Some i) = Inr v"
      by (simp add: safe_asarray_eq)
    then have Di: "?D i = v"
      by simp
    from w' fresh(2) have sn: "snd (cached_frames rd r (i # rest) c) = snd (cached_frames rd r rest c1)"
      and fs: "(\<exists>as. fst (cached_frames rd r (i # rest) c) = Inr as)
                 \<longleftrightarrow> (\<exists>as. fst (cached_frames rd r rest c1) = Inr as)"
      by (auto split: prod.splits sum.splits)
    have a1: "stored (snd (cached_frames rd r (i # rest) c)) = stored c @ map ?P (i # js2)"
      unfolding sn s2 fresh(4) by (simp add: Di)
    have a2: "\<forall>j\<in>set (i # js2). asarray rd (seq r) (Some j) = Inr (?D j)"
      using d2 dec by simp
    have a3: "subseq (i # js2) (i # rest)"
      using j2 by simp
    have a4: "cached_keys (snd (cached_frames rd r (i # rest) c))
                \<subseteq> cached_keys c \<union> file_key r ` set (i # js2)"
      unfolding sn using k2 fresh(5) by auto
    have a5: "(\<forall>j\<in>set (i # rest). j \<in> set (i # js2) \<or> file_key r j \<in> cached_keys c)
              \<and> (distinct (i # rest) \<and> (\<forall>j\<in>set (i # rest). file_key r j \<notin> cached_keys c)
                   \<longrightarrow> i # js2 = i # rest)"
      if "\<exists>as. fst (cached_frames rd r (i # rest) c) = Inr as"
    proof (intro conjI ballI impI)
      from that fs ok2 have all: "\<forall>j\<in>set rest. j \<in> set js2 \<or> file_key r j \<in> cached_keys c1"
        and exact: "distinct rest \<and> (\<forall>j\<in>set rest. file_key r j \<notin> cached_keys c1) \<longrightarrow> js2 = rest"
        by blast+
      {
        fix j assume "j \<in> set (i # rest)"
        then consider "j = i" | "j \<in> set rest"
          by auto
        then show "j \<in> set (i # js2) \<or> file_key r j \<in> cached_keys c"
        proof cases
          case 1
          then show ?thesis by simp
        next
          case 2
          with all have "j \<in> set js2 \<or> file_key r j \<in> cached_keys c1"
            by blast
          with fresh(5) have "j \<in> set js2 \<or> file_key r j = file_key r i \<or> file_key r j \<in> cached_keys c"
            by blast
          then show ?thesis
            by (auto simp: file_key_inject)
        qed
      }
      assume h: "distinct (i # rest) \<and> (\<forall>j\<in>set (i # rest). file_key r j \<notin> cached_keys c)"
      have "file_key r j \<notin> cached_keys c1" if "j \<in> set rest" for j
      proof
        assume "file_key r j \<in> cached_keys c1"
        with fresh(5) have "file_key r j = file_key r i \<or> file_key r j \<in> cached_keys c"
          by blast
        with h that show False
          by (auto simp: file_key_inject)
      qed
      with h exact have "js2 = rest"
        by simp
      then show "i # js2 = i # rest"
        by simp
    qed
    from a1 a2 a3 a4 a5 show ?thesis
      by (intro exI [of _ "i # js2"]) blast
  qed
qed

lemma py_range_distinct:
  assumes "py_range start stop step = Inr indices"
  shows "distinct indices"
proof -
  from assms have nz: "step \<noteq> 0"
    by (auto simp: py_range_def split: if_splits)
  have "inj_on (\<lambda>k. start + int k * step) A" for A
    using nz by (auto simp: inj_on_def)
  with assms show ?thesis
    by (auto simp: py_range_def distinct_map split: if_splits)
qed

lemma stack_range_trace:
  "\<exists>js. stored (snd (stack_range rd r start stop step c))
           = stored c @ map (\<lambda>i. (file_key r i, projr (asarray rd (seq r) (Some i)))) js
        \<and> (\<forall>i\<in>set js. asarray rd (seq r) (Some i) = Inr (projr (asarray rd (seq r) (Some i))))
        \<and> (\<forall>slice_stop indices.
              stop = Some slice_stop
              \<and> py_range (case start of None \<Rightarrow> 0 | Some s \<Rightarrow> s) slice_stop
                          (case step of None \<Rightarrow> 1 | Some s \<Rightarrow> s) = Inr indices
              \<longrightarrow> subseq js indices
                  \<and> ((\<exists>arr. fst (stack_range rd r start stop step c) = Inr arr) \<longrightarrow>
                        (\<forall>i\<in>set indices. i \<in> set js \<or> file_key r i \<in> cached_keys c)
                        \<and> ((\<forall>i\<in>set indices. file_key r i \<notin> cached_keys c) \<longrightarrow> js = indices)))"
proof -
  have trivial: ?thesis
    if "stored (snd (stack_range rd r start stop step c)) = stored c"
      and "\<And>slice_stop. stop = Some slice_stop \<Longrightarrow>
             \<exists>e. py_range (case start of None \<Rightarrow> 0 | Some s \<Rightarrow> s) slice_stop
                          (case step of None \<Rightarrow> 1 | Some s \<Rightarrow> s) = Inl e"
    using that by (intro exI [of _ "[]"]) fastforce
  show ?thesis
  proof (cases stop)
    case None
    then show ?thesis
      by (intro trivial) (simp_all add: stack_range_def)
  next
    case (Some slice_stop)
    show ?thesis
    proof (cases "py_range (case start of None \<Rightarrow> 0 | Some s \<Rightarrow> s) slice_stop
                          (case step of None \<Rightarrow> 1 | Some s \<Rightarrow> s)")
      case (Inl e)
      with Some show ?thesis
        by (intro trivial) (simp_all add: stack_range_def)
    next
      case (Inr indices)
      from cached_frames_trace [of rd r indices c] obtain js where
        js: "stored (snd (cached_frames rd r indices c))
               = stored c @ map (\<lambda>i. (file_key r i, projr (asarray rd (seq r) (Some i)))) js"
          "\<forall>i\<in>set js. asarray rd (seq r) (Some i) = Inr (projr (asarray rd (seq r) (Some i)))"
          "subseq js indices"
          "(\<exists>as. fst (cached_frames rd r indices c) = Inr as) \<longrightarrow>
              (\<forall>i\<in>set indices. i \<in> set js \<or> file_key r i \<in> cached_keys c)
              \<and> (distinct indices \<and> (\<forall>i\<in>set indices. file_key r i \<notin> cached_keys c)
                   \<longrightarrow> js = indices)"
        by blast
      from Some Inr have sn: "snd (stack_range rd r start stop step c) = snd (cached_frames rd r indices c)"
        by (simp add: stack_range_def split: prod.splits sum.splits)
      from Some Inr have fs: "\<exists>as. fst (cached_frames rd r indices c) = Inr as"
        if "\<exists>arr. fst (stack_range rd r start stop step c) = Inr arr"
        using that by (auto simp: stack_range_def split: prod.splits sum.splits)
      from Inr have dist: "distinct indices"
        by (rule py_range_distinct)
      have "(\<forall>i\<in>set indices. i \<in> set js \<or> file_key r i \<in> cached_keys c)
              \<and> ((\<forall>i\<in>set indices. file_key r i \<notin> cached_keys c) \<longrightarrow> js = indices)"
        if "\<exists>arr. fst (stack_range rd r start stop step c) = Inr arr"
        using fs [OF that] js(4) dist by blast
      with js(1,2,3) Some Inr show ?thesis
        unfolding sn by (intro exI [of _ js]) simp
    qed
  qed
qed

lemma as_array_snd: "snd (as_array rc) = snd rc"
  by (simp add: as_array_def split: prod.splits sum.splits)

lemma as_array_success:
  "(\<exists>arr. fst (as_array rc) = Inr arr) \<longleftrightarrow> (\<exists>a. fst rc = Inr a)"
  by (cases rc; cases "fst rc") (auto simp: as_array_def)

lemma base_key_not_indexed: "cache_key r \<notin> fst ` set (map (\<lambda>i. (file_key r i, v i)) js)"
  by (auto simp: file_key_def)

text \<open>
  Claim C2, amended. A range read, with the range as the selector or as the first
  component of a tuple, stores in the cache the decode of a file of the range under
  the key that extends the reader's key by the index of that file, in the order of
  the range (the indices stored are a subsequence of the range), and nothing else,
  never an entry under the reader's own key. When it
  returns an array, every file of the range is cached: its key was in the cache
  before the read or its decode has been stored by it, and over a cache that held
  none of these keys the decodes stored are those of the whole range. Over a
  consistent cache the result is \<open>numpy.stack\<close> of the per-file decodes of the range,
  sub-indexed by the rest of the tuple when there is one. A whole-array read is one
  decode of the whole sequence under the reader's own key: when that key is not in
  the cache and the decode succeeds, the aggregate is stored under it as one entry.
\<close>

theorem range_read_stores_per_file_only:
  "(sel = PSlice start stop step \<or> sel = PTuple (PSlice start stop step # the_rest) \<longrightarrow>
      (\<exists>js v. stored (snd (read rd gi r sel c)) = stored c @ map (\<lambda>i. (file_key r i, v i)) js
            \<and> (\<forall>i\<in>set js. asarray rd (seq r) (Some i) = Inr (v i))
            \<and> cache_key r \<notin> fst ` set (map (\<lambda>i. (file_key r i, v i)) js)
            \<and> (\<forall>slice_stop indices.
                  stop = Some slice_stop
                  \<and> py_range (case start of None \<Rightarrow> 0 | Some s \<Rightarrow> s) slice_stop
                              (case step of None \<Rightarrow> 1 | Some s \<Rightarrow> s) = Inr indices
                  \<longrightarrow> subseq js indices
                      \<and> ((\<exists>arr. fst (read rd gi r sel c) = Inr arr) \<longrightarrow>
                            (\<forall>i\<in>set indices. i \<in> set js \<or> file_key r i \<in> cached_keys c)
                            \<and> ((\<forall>i\<in>set indices. file_key r i \<notin> cached_keys c)
                                 \<longrightarrow> js = indices)))))
   \<and> (cache_ok rd r c \<longrightarrow>
        fst (read rd gi r (PSlice start stop step) c) =
          (case stacked_decodes rd (seq r) start stop step of
             Inl e \<Rightarrow> Inl e
           | Inr a \<Rightarrow> Inr (RArray a))
        \<and> fst (read rd gi r (PTuple (PSlice start stop step # the_rest)) c) =
          (case stacked_decodes rd (seq r) start stop step of
             Inl e \<Rightarrow> Inl e
           | Inr a \<Rightarrow> (case gi a the_rest of Inl e \<Rightarrow> Inl e | Inr b \<Rightarrow> Inr (RArray b))))
   \<and> (map_of (entries c) (cache_key r) = None \<and> asarray rd (seq r) None = Inr whole \<longrightarrow>
        read rd gi r PNone c =
          (Inr (RArray whole),
           c\<lparr>entries := take (capacity c) ((cache_key r, whole) # entries c),
             stored := stored c @ [(cache_key r, whole)]\<rparr>))"
proof (intro conjI impI)
  let ?v = "\<lambda>i. projr (asarray rd (seq r) (Some i))"
  assume sel: "sel = PSlice start stop step \<or> sel = PTuple (PSlice start stop step # the_rest)"
  from stack_range_trace [of rd r start stop step c] obtain js where
    js: "stored (snd (stack_range rd r start stop step c)) = stored c @ map (\<lambda>i. (file_key r i, ?v i)) js"
      "\<forall>i\<in>set js. asarray rd (seq r) (Some i) = Inr (?v i)"
      "\<forall>slice_stop indices.
              stop = Some slice_stop
              \<and> py_range (case start of None \<Rightarrow> 0 | Some s \<Rightarrow> s) slice_stop
                          (case step of None \<Rightarrow> 1 | Some s \<Rightarrow> s) = Inr indices
              \<longrightarrow> subseq js indices
                  \<and> ((\<exists>arr. fst (stack_range rd r start stop step c) = Inr arr) \<longrightarrow>
                        (\<forall>i\<in>set indices. i \<in> set js \<or> file_key r i \<in> cached_keys c)
                        \<and> ((\<forall>i\<in>set indices. file_key r i \<notin> cached_keys c) \<longrightarrow> js = indices))"
    by blast
  from sel have rd_snd: "snd (read rd gi r sel c) = snd (stack_range rd r start stop step c)"
    by (auto simp: as_array_snd split: prod.splits sum.splits)
  have rd_fst: "\<exists>a. fst (stack_range rd r start stop step c) = Inr a"
    if "\<exists>arr. fst (read rd gi r sel c) = Inr arr"
  proof (cases "fst (stack_range rd r start stop step c)")
    case (Inl e)
    then have "fst (read rd gi r sel c) = Inl e"
      using sel by (cases "stack_range rd r start stop step c") (auto simp: as_array_def)
    with that show ?thesis
      by simp
  next
    case (Inr a)
    then show ?thesis
      by blast
  qed
  have exact: "\<forall>slice_stop indices.
               stop = Some slice_stop
               \<and> py_range (case start of None \<Rightarrow> 0 | Some s \<Rightarrow> s) slice_stop
                           (case step of None \<Rightarrow> 1 | Some s \<Rightarrow> s) = Inr indices
               \<longrightarrow> subseq js indices
                   \<and> ((\<exists>arr. fst (read rd gi r sel c) = Inr arr) \<longrightarrow>
                         (\<forall>i\<in>set indices. i \<in> set js \<or> file_key r i \<in> cached_keys c)
                         \<and> ((\<forall>i\<in>set indices. file_key r i \<notin> cached_keys c) \<longrightarrow> js = indices))"
    using js(3) rd_fst by blast
  from js(1,2) exact base_key_not_indexed [of r ?v js]
  show "\<exists>js v. stored (snd (read rd gi r sel c)) = stored c @ map (\<lambda>i. (file_key r i, v i)) js
            \<and> (\<forall>i\<in>set js. asarray rd (seq r) (Some i) = Inr (v i))
            \<and> cache_key r \<notin> fst ` set (map (\<lambda>i. (file_key r i, v i)) js)
            \<and> (\<forall>slice_stop indices.
                  stop = Some slice_stop
                  \<and> py_range (case start of None \<Rightarrow> 0 | Some s \<Rightarrow> s) slice_stop
                              (case step of None \<Rightarrow> 1 | Some s \<Rightarrow> s) = Inr indices
                  \<longrightarrow> subseq js indices
                      \<and> ((\<exists>arr. fst (read rd gi r sel c) = Inr arr) \<longrightarrow>
                            (\<forall>i\<in>set indices. i \<in> set js \<or> file_key r i \<in> cached_keys c)
                            \<and> ((\<forall>i\<in>set indices. file_key r i \<notin> cached_keys c)
                                 \<longrightarrow> js = indices)))"
    unfolding rd_snd by (intro exI [of _ js] exI [of _ ?v]) blast
next
  assume ok: "cache_ok rd r c"
  obtain res c1 where s: "stack_range rd r start stop step c = (res, c1)"
    by (cases "stack_range rd r start stop step c")
  with stack_range_decode [OF ok, of start stop step]
  have res: "res = stacked_decodes rd (seq r) start stop step"
    by (simp add: stacked_decodes_def)
  from s res show "fst (read rd gi r (PSlice start stop step) c) =
          (case stacked_decodes rd (seq r) start stop step of
             Inl e \<Rightarrow> Inl e
           | Inr a \<Rightarrow> Inr (RArray a))"
    by (simp add: as_array_def split: sum.splits)
  from s res show "fst (read rd gi r (PTuple (PSlice start stop step # the_rest)) c) =
          (case stacked_decodes rd (seq r) start stop step of
             Inl e \<Rightarrow> Inl e
           | Inr a \<Rightarrow> (case gi a the_rest of Inl e \<Rightarrow> Inl e | Inr b \<Rightarrow> Inr (RArray b)))"
    by (simp add: as_array_def split: sum.splits)
next
  assume "map_of (entries c) (cache_key r) = None \<and> asarray rd (seq r) None = Inr whole"
  then show "read rd gi r PNone c =
          (Inr (RArray whole),
           c\<lparr>entries := take (capacity c) ((cache_key r, whole) # entries c),
             stored := stored c @ [(cache_key r, whole)]\<rparr>)"
    by (simp add: with_object_cache_def safe_asarray_eq as_array_def)
qed

text \<open>
  On the example sequence and an empty cache, \<open>read(slice(None, 2))\<close> stores the
  frames of the files 0 and 1 under their keys, in that order, and \<open>read()\<close> stores
  the whole array under the reader's own key.
\<close>

theorem range_read_stores_per_file_only_witness:
  "cache_ok demo_imread demo_reader (empty_cache 8)
   \<and> map_of (entries (empty_cache 8)) (cache_key demo_reader) = None
   \<and> asarray demo_imread (seq demo_reader) None = Inr (NDArray [3, 1, 2] [10, 11, 20, 21, 30, 31])
   \<and> py_range 0 2 1 = Inr [0, 1]
   \<and> stacked_decodes demo_imread (seq demo_reader) None (Some 2) None
       = Inr (NDArray [2, 1, 2] [10, 11, 20, 21])
   \<and> fst (read demo_imread demo_getitem demo_reader (PSlice None (Some 2) None) (empty_cache 8))
       = Inr (RArray (NDArray [2, 1, 2] [10, 11, 20, 21]))
   \<and> fst (read demo_imread demo_getitem demo_reader (PTuple [PSlice None (Some 2) None])
            (empty_cache 8))
       = Inr (RArray (NDArray [2, 1, 2] [10, 11, 20, 21]))
   \<and> stored (snd (read demo_imread demo_getitem demo_reader (PSlice None (Some 2) None)
                    (empty_cache 8)))
       = [(file_key demo_reader 0, NDArray [1, 2] [10, 11]),
          (file_key demo_reader 1, NDArray [1, 2] [20, 21])]
   \<and> stored (snd (read demo_imread demo_getitem demo_reader PNone (empty_cache 8)))
       = [(cache_key demo_reader, NDArray [3, 1, 2] [10, 11, 20, 21, 30, 31])]"
proof -
  let ?sel = "PSlice None (Some 2) None"
  have ok: "cache_ok demo_imread demo_reader (empty_cache 8)"
    by (rule cache_ok_empty)
  have miss: "map_of (entries (empty_cache 8)) (cache_key demo_reader) = None"
    by (simp add: empty_cache_def)
  have rng: "py_range 0 2 1 = Inr [0, 1]"
    by (simp add: py_range_def upt_rec)
  have d0: "asarray demo_imread (seq demo_reader) (Some 0) = Inr (NDArray [1, 2] [10, 11])"
    and d1: "asarray demo_imread (seq demo_reader) (Some 1) = Inr (NDArray [1, 2] [20, 21])"
    by (simp_all add: asarray_def list_getitem_def demo_reader_simps demo_files_def demo_imread_def
          ustr_def)
  then have dec: "stacked_decodes demo_imread (seq demo_reader) None (Some 2) None
                    = Inr (NDArray [2, 1, 2] [10, 11, 20, 21])"
    by (simp add: stacked_decodes_def rng numpy_stack_def)
  note inst = range_read_stores_per_file_only [where rd = demo_imread and gi = demo_getitem
      and r = demo_reader and c = "empty_cache 8" and start = None and stop = "Some 2"
      and step = None and whole = "NDArray [3, 1, 2] [10, 11, 20, 21, 30, 31]"
      and sel = ?sel and the_rest = "[]"]
  from inst ok dec
  have res: "fst (read demo_imread demo_getitem demo_reader ?sel (empty_cache 8))
       = Inr (RArray (NDArray [2, 1, 2] [10, 11, 20, 21]))"
    and res2: "fst (read demo_imread demo_getitem demo_reader (PTuple [?sel]) (empty_cache 8))
       = Inr (RArray (NDArray [2, 1, 2] [10, 11, 20, 21]))"
    by (simp_all add: demo_getitem_def)
  from inst miss demo_whole
  have whole: "stored (snd (read demo_imread demo_getitem demo_reader PNone (empty_cache 8)))
       = [(cache_key demo_reader, NDArray [3, 1, 2] [10, 11, 20, 21, 30, 31])]"
    by (simp add: empty_cache_def)
  from inst obtain js v where
    st: "stored (snd (read demo_imread demo_getitem demo_reader ?sel (empty_cache 8)))
           = stored (empty_cache 8) @ map (\<lambda>i. (file_key demo_reader i, v i)) js"
    and vs: "\<forall>i\<in>set js. asarray demo_imread (seq demo_reader) (Some i) = Inr (v i)"
    and ex: "\<forall>slice_stop indices.
               Some 2 = Some slice_stop
               \<and> py_range (case None of None \<Rightarrow> 0 | Some s \<Rightarrow> s) slice_stop
                           (case None of None \<Rightarrow> 1 | Some s \<Rightarrow> s) = Inr indices
               \<longrightarrow> subseq js indices
                   \<and> ((\<exists>arr. fst (read demo_imread demo_getitem demo_reader ?sel (empty_cache 8)) = Inr arr)
                        \<longrightarrow> (\<forall>i\<in>set indices. i \<in> set js \<or> file_key demo_reader i \<in> cached_keys (empty_cache 8))
                            \<and> ((\<forall>i\<in>set indices. file_key demo_reader i \<notin> cached_keys (empty_cache 8))
                                 \<longrightarrow> js = indices))"
    by blast
  from ex [rule_format, of 2 "[0, 1]"] rng res have "js = [0, 1]"
    by (simp add: cached_keys_def empty_cache_def)
  with st vs d0 d1
  have stq: "stored (snd (read demo_imread demo_getitem demo_reader ?sel (empty_cache 8)))
       = [(file_key demo_reader 0, NDArray [1, 2] [10, 11]),
          (file_key demo_reader 1, NDArray [1, 2] [20, 21])]"
    by (simp add: empty_cache_def)
  from ok miss demo_whole rng dec res res2 stq whole show ?thesis
    by blast
qed

text \<open>
  Claim C2 as stated fails for the whole-array read: on the example sequence and an
  empty cache, \<open>read()\<close> returns the array of all three files and leaves it in the
  cache as the one entry, stored under the reader's key with no file index.
\<close>

theorem whole_read_aggregate_entry_counterexample:
  "fst (read demo_imread demo_getitem demo_reader PNone (empty_cache 8))
     = Inr (RArray (NDArray [3, 1, 2] [10, 11, 20, 21, 30, 31]))
   \<and> stored (snd (read demo_imread demo_getitem demo_reader PNone (empty_cache 8)))
       = [(cache_key demo_reader, NDArray [3, 1, 2] [10, 11, 20, 21, 30, 31])]
   \<and> entries (snd (read demo_imread demo_getitem demo_reader PNone (empty_cache 8)))
       = [(cache_key demo_reader, NDArray [3, 1, 2] [10, 11, 20, 21, 30, 31])]"
  by (simp add: with_object_cache_def empty_cache_def safe_asarray_eq demo_whole as_array_def)

text \<open>
  For \<open>None\<close>, an integer, a slice and a tuple, \<open>read\<close> returns an array or raises.
\<close>

lemma read_handled_selector:
  assumes "sel = PNone \<or> (\<exists>i. sel = PInt i) \<or> (\<exists>a b s. sel = PSlice a b s) \<or> (\<exists>xs. sel = PTuple xs)"
  shows "fst (read rd gi r sel c) \<noteq> Inr RNone"
proof -
  have arr: "fst (as_array rc) \<noteq> Inr RNone" for rc
    by (simp add: as_array_def split: prod.splits sum.splits)
  show ?thesis
  proof (cases sel)
    case (PTuple xs)
    show ?thesis
    proof (cases xs)
      case Nil
      with PTuple show ?thesis by simp
    next
      case (Cons image_axis the_rest)
      with PTuple arr show ?thesis
        by (cases image_axis) (auto split: prod.splits sum.splits)
    qed
  qed (use assms arr in auto)
qed

text \<open>
  Claim C7. \<open>read\<close> should return an array or raise, for every selector. For a
  selector that is none of \<open>None\<close>, \<open>int\<close>, \<open>tuple\<close> and \<open>slice\<close> the source falls off
  the end of the function: on \<open>numpy.int64(0)\<close>, on the list \<open>[0, 1]\<close> and on
  \<open>Ellipsis\<close> it returns \<open>None\<close>, raises nothing and leaves the cache untouched.
\<close>

theorem read_unhandled_selector_returns_none:
  "read demo_imread demo_getitem demo_reader (PNumpyInt 0) (empty_cache 8)
     = (Inr RNone, empty_cache 8)
   \<and> read demo_imread demo_getitem demo_reader (PList [PInt 0, PInt 1]) (empty_cache 8)
     = (Inr RNone, empty_cache 8)
   \<and> read demo_imread demo_getitem demo_reader PEllipsis (empty_cache 8)
     = (Inr RNone, empty_cache 8)"
  by simp

section \<open>Cache keys\<close>

text \<open>
  The three example readers are what \<open>TiffSequenceReader\<close> builds over their file
  lists, for a digest function that gives these lists the digests of \<open>hashlib\<close>.
\<close>

lemma example_readers_built:
  "fingerprint demo_files = ''10dc1a8ab18626e7c8aed1b85666d7d6''
     \<Longrightarrow> TiffSequenceReader fingerprint \<lparr>files = demo_files\<rparr> = demo_reader"
  "fingerprint rgb_files = ''2831562b3f9f7302615cfb9948757224''
     \<Longrightarrow> TiffSequenceReader fingerprint \<lparr>files = rgb_files\<rparr> = rgb_reader"
  "fingerprint mixed_files = ''53ddbdf13b69602f3aced784444988fe''
     \<Longrightarrow> TiffSequenceReader fingerprint \<lparr>files = mixed_files\<rparr> = mixed_reader"
  by (simp_all add: TiffSequenceReader_def demo_reader_def rgb_reader_def mixed_reader_def)

text \<open>
  The key of a reader for a file holds the module and the class name of the reader
  type, the fingerprint of the file list and the index of the file. Two readers
  derive the same key for the indices \<open>i\<close> and \<open>j\<close> exactly when the fingerprints of
  their file lists are equal and \<open>i = j\<close>.
\<close>

lemma file_key_equal_iff:
  "file_key (TiffSequenceReader fingerprint s1) i = file_key (TiffSequenceReader fingerprint s2) j
     \<longleftrightarrow> fingerprint (files s1) = fingerprint (files s2) \<and> i = j"
  by (simp add: file_key_def TiffSequenceReader_def)

text \<open>
  A digest of MD5 is written in 32 characters, and there are infinitely many file
  lists. Whatever function of a fixed length the fingerprint is, two different file
  lists have the same fingerprint, and the readers over them derive the same key for
  every index. Which two lists these are for MD5 is not known.
\<close>

lemma fixed_length_fingerprint_collides:
  fixes fingerprint :: "pystr list \<Rightarrow> string"
  assumes "\<And>fs. length (fingerprint fs) = n"
  shows "\<exists>fs1 fs2. fs1 \<noteq> fs2
           \<and> (\<forall>i. file_key (TiffSequenceReader fingerprint \<lparr>files = fs1\<rparr>) i
                    = file_key (TiffSequenceReader fingerprint \<lparr>files = fs2\<rparr>) i)"
proof -
  have "range fingerprint \<subseteq> {s. set s \<subseteq> UNIV \<and> length s = n}"
    using assms by auto
  moreover have "finite {s :: string. set s \<subseteq> UNIV \<and> length s = n}"
    by (rule finite_lists_length_eq) simp
  ultimately have fin: "finite (range fingerprint)"
    by (rule finite_subset)
  have "\<not> inj fingerprint"
  proof
    assume "inj fingerprint"
    with fin have "finite (UNIV :: pystr list set)"
      by (rule finite_imageD)
    then show False
      by (simp add: infinite_UNIV_listI)
  qed
  then obtain fs1 fs2 where "fs1 \<noteq> fs2" "fingerprint fs1 = fingerprint fs2"
    by (auto simp: inj_def)
  then show ?thesis
    by (intro exI [of _ fs1] exI [of _ fs2]) (simp add: file_key_equal_iff)
qed

end
